theory Spec2Isabelle
  imports Main "HOL-Library.Sublist"
begin

text \<open>
  The content script that filters video recommendations: keyword extraction from the goal
  text, the relevance check, marking and clearing of a video element, the scan over the
  document, the debounced rescan, and the handlers of the messages of the store. Every
  function of the script is a function here, under its own name; what the script keeps in
  variables or in the document is passed in and returned.
\<close>

section \<open>Strings\<close>

text \<open>
  A JavaScript string is a sequence of code units. The model keeps the code units
  0..255, one \<^typ>\<open>char\<close> each; on them \<open>toLowerCase\<close> maps \<open>A-Z\<close> and the
  capital letters \<open>U+00C0..U+00DE\<close> (without the multiplication sign \<open>U+00D7\<close>) to the
  unit 32 above, and leaves every other unit alone.

  A value that may be absent is a \<open>field\<close>: \<open>Missing\<close> is \<open>undefined\<close>, \<open>Null\<close> is
  \<open>null\<close>.
\<close>

datatype 'a field = Missing | Null | Val 'a

definition code_unit :: "char \<Rightarrow> nat" where
  "code_unit c = of_char c"

definition is_upper :: "char \<Rightarrow> bool" where
  "is_upper c = (let n = code_unit c in
     (65 \<le> n \<and> n \<le> 90) \<or> (192 \<le> n \<and> n \<le> 222 \<and> n \<noteq> 215))"

definition lower_unit :: "char \<Rightarrow> char" where
  "lower_unit c = (if is_upper c then char_of (code_unit c + 32) else c)"

definition toLowerCase :: "string \<Rightarrow> string" where
  "toLowerCase s = map lower_unit s"

text \<open>The character class \<open>\s\<close>, also what \<open>trim\<close> strips: tab, line feed, vertical
  tab, form feed, carriage return, space and no-break space.\<close>

definition is_space :: "char \<Rightarrow> bool" where
  "is_space c = (code_unit c \<in> {9, 10, 11, 12, 13, 32, 160})"

text \<open>The character class \<open>[a-z0-9]\<close>.\<close>

definition is_az09 :: "char \<Rightarrow> bool" where
  "is_az09 c = (let n = code_unit c in (97 \<le> n \<and> n \<le> 122) \<or> (48 \<le> n \<and> n \<le> 57))"

text \<open>\<open>.replace(/[^a-z0-9\s]/g, ' ')\<close>\<close>

definition replace_special :: "string \<Rightarrow> string" where
  "replace_special s = map (\<lambda>c. if is_az09 c \<or> is_space c then c else CHR '' '') s"

text \<open>
  \<open>.split(/\s+/)\<close>: the pieces between the maximal runs of white space. A string that
  starts (ends) with white space yields a leading (trailing) empty piece, and the
  empty string yields one empty piece.
\<close>

function split_ws :: "string \<Rightarrow> string list" where
  "split_ws s =
     (let piece = takeWhile (\<lambda>c. \<not> is_space c) s;
          rest = dropWhile (\<lambda>c. \<not> is_space c) s
      in if rest = [] then [piece] else piece # split_ws (dropWhile is_space rest))"
  by pat_completeness auto
termination
proof (relation "measure length")
  show "wf (measure length)" by simp
next
  fix s piece rest :: string
  assume r: "rest = dropWhile (\<lambda>c. \<not> is_space c) s" and ne: "rest \<noteq> []"
  from ne have "is_space (hd rest)"
    using hd_dropWhile [of "\<lambda>c. \<not> is_space c" s] r by auto
  with ne have "length (dropWhile is_space rest) < length rest"
    by (cases rest) (auto simp: le_imp_less_Suc length_dropWhile_le)
  also have "length rest \<le> length s"
    by (simp add: r length_dropWhile_le)
  finally show "(dropWhile is_space rest, s) \<in> measure length" by simp
qed

declare split_ws.simps [simp del]

text \<open>\<open>String.prototype.includes\<close>: the argument occurs at some position.\<close>

fun str_includes :: "string \<Rightarrow> string \<Rightarrow> bool" where
  "str_includes [] kw = (kw = [])"
| "str_includes (c # cs) kw = (take (length kw) (c # cs) = kw \<or> str_includes cs kw)"

text \<open>\<open>String.prototype.trim\<close>\<close>

definition trim :: "string \<Rightarrow> string" where
  "trim s = rev (dropWhile is_space (rev (dropWhile is_space s)))"

section \<open>Keyword extraction\<close>

definition STOP_WORDS :: "string list" where
  "STOP_WORDS =
    [''the'', ''a'', ''an'', ''and'', ''or'', ''but'', ''in'', ''on'', ''at'', ''to'', ''for'',
     ''of'', ''with'', ''by'', ''from'', ''is'', ''it'', ''as'', ''be'', ''was'', ''are'',
     ''this'', ''that'', ''i'', ''my'', ''me'', ''we'', ''our'', ''you'', ''your'', ''am'',
     ''do'', ''does'', ''did'', ''will'', ''would'', ''could'', ''should'', ''can'',
     ''not'', ''no'', ''so'', ''if'', ''its'', ''than'', ''then'', ''just'', ''about'',
     ''into'', ''over'', ''after'', ''up'', ''down'', ''out'', ''off'', ''how'', ''what'',
     ''when'', ''where'', ''why'', ''which'', ''who'', ''all'', ''each'', ''some'']"

text \<open>\<open>!text\<close> holds for an absent argument and for the empty string.\<close>

definition extractKeywords :: "string field \<Rightarrow> string list" where
  "extractKeywords text =
     (case text of
        Missing \<Rightarrow> []
      | Null \<Rightarrow> []
      | Val s \<Rightarrow>
          if s = [] then []
          else filter (\<lambda>w. length w > 2 \<and> w \<notin> set STOP_WORDS)
                 (split_ws (replace_special (toLowerCase s))))"

section \<open>Relevance check\<close>

text \<open>\<open>isRelevant\<close> reads the global \<open>currentGoal\<close>: the argument \<open>goal\<close> here.\<close>

definition isRelevant :: "string \<Rightarrow> string \<Rightarrow> bool" where
  "isRelevant goal videoTitle =
     (if goal = [] then True
      else let keywords = extractKeywords (Val goal) in
        if length keywords = 0 then True
        else let titleLower = toLowerCase videoTitle in
          list_ex (\<lambda>keyword. str_includes titleLower keyword) keywords)"

section \<open>Document tree\<close>

text \<open>
  An element carries what the script reads and writes: its tag name (lower case), its
  \<open>id\<close>, its \<open>class\<close> attribute (the text of the attribute, \<open>None\<close> when the element
  has none), the \<open>position\<close> property of its inline style, its \<open>title\<close> attribute, and
  its children. The attribute selector \<open>[style*="position: relative"]\<close> is read as: the
  inline \<open>position\<close> is \<open>relative\<close>.

  A reference to a node is its path from the node the search started at (child
  indices). \<open>remove()\<close> leaves the placeholder \<open>Gone\<close> in the slot of the removed
  node, so that the paths of its siblings, held in a static \<open>NodeList\<close>, keep denoting
  the same nodes; a placeholder is no element and has no text. A path into a removed
  subtree denotes nothing any more: what the script does to a detached node does not reach
  the document.
\<close>

record attrs =
  tag :: string
  ident :: string
  class_attr :: "string option"
  style_position :: string
  title_attr :: "string field"

datatype node = Text string | Gone | Element attrs "node list"

type_synonym path = "nat list"

text \<open>A selector sees the element and its ancestors (nearest first).\<close>

type_synonym selector = "attrs list \<Rightarrow> attrs \<Rightarrow> bool"

fun node_at :: "path \<Rightarrow> node \<Rightarrow> node option" where
  "node_at [] n = Some n"
| "node_at (i # p) (Element a cs) = (if i < length cs then node_at p (cs ! i) else None)"
| "node_at (i # p) n = None"

text \<open>The ancestors (nearest first) of the node a path denotes, above the ancestors
  \<open>anc\<close> of the starting node.\<close>

fun ancestors_at :: "path \<Rightarrow> attrs list \<Rightarrow> node \<Rightarrow> attrs list" where
  "ancestors_at (i # p) anc (Element a cs) =
     (if i < length cs then ancestors_at p (a # anc) (cs ! i) else anc)"
| "ancestors_at p anc n = anc"

text \<open>Running \<open>f\<close> on the node a path denotes; nothing happens when the path denotes
  nothing.\<close>

fun apply_at :: "path \<Rightarrow> (attrs list \<Rightarrow> node \<Rightarrow> node) \<Rightarrow> attrs list \<Rightarrow> node \<Rightarrow> node" where
  "apply_at [] f anc n = f anc n"
| "apply_at (i # p) f anc (Element a cs) =
     (if i < length cs then Element a (cs[i := apply_at p f (a # anc) (cs ! i)])
      else Element a cs)"
| "apply_at (i # p) f anc n = n"

text \<open>\<open>list.forEach(f)\<close> over a static list of references.\<close>

definition forEach :: "path list \<Rightarrow> (attrs list \<Rightarrow> node \<Rightarrow> node) \<Rightarrow> attrs list \<Rightarrow> node \<Rightarrow> node" where
  "forEach ps f anc n = fold (\<lambda>p d. apply_at p f anc d) ps n"

text \<open>
  The matches of a selector in a subtree, in tree order: \<open>first_in\<close> and \<open>all_in\<close>
  look at the node itself and below it, \<open>first_below\<close> and \<open>all_below\<close> at the children
  from index \<open>i\<close> on.
\<close>

fun first_in :: "selector \<Rightarrow> attrs list \<Rightarrow> node \<Rightarrow> path option"
  and first_below :: "selector \<Rightarrow> attrs list \<Rightarrow> nat \<Rightarrow> node list \<Rightarrow> path option" where
  "first_in sel anc (Text s) = None"
| "first_in sel anc Gone = None"
| "first_in sel anc (Element a cs) =
     (if sel anc a then Some [] else first_below sel (a # anc) 0 cs)"
| "first_below sel anc i [] = None"
| "first_below sel anc i (c # cs) =
     (case first_in sel anc c of
        Some p \<Rightarrow> Some (i # p)
      | None \<Rightarrow> first_below sel anc (Suc i) cs)"

fun all_in :: "selector \<Rightarrow> attrs list \<Rightarrow> node \<Rightarrow> path list"
  and all_below :: "selector \<Rightarrow> attrs list \<Rightarrow> nat \<Rightarrow> node list \<Rightarrow> path list" where
  "all_in sel anc (Text s) = []"
| "all_in sel anc Gone = []"
| "all_in sel anc (Element a cs) =
     (if sel anc a then [[]] else []) @ all_below sel (a # anc) 0 cs"
| "all_below sel anc i [] = []"
| "all_below sel anc i (c # cs) =
     map ((#) i) (all_in sel anc c) @ all_below sel anc (Suc i) cs"

text \<open>\<open>element.querySelector\<close> and \<open>element.querySelectorAll\<close> search the descendants
  of the element; on the document they search every element.\<close>

fun querySelector :: "selector \<Rightarrow> attrs list \<Rightarrow> node \<Rightarrow> path option" where
  "querySelector sel anc (Element a cs) = first_below sel (a # anc) 0 cs"
| "querySelector sel anc n = None"

fun querySelectorAll :: "selector \<Rightarrow> attrs list \<Rightarrow> node \<Rightarrow> path list" where
  "querySelectorAll sel anc (Element a cs) = all_below sel (a # anc) 0 cs"
| "querySelectorAll sel anc n = []"

definition document_querySelectorAll :: "selector \<Rightarrow> node \<Rightarrow> path list" where
  "document_querySelectorAll sel doc = all_in sel [] doc"

fun textContent :: "node \<Rightarrow> string" where
  "textContent (Text s) = s"
| "textContent Gone = []"
| "textContent (Element a cs) = concat (map textContent cs)"

text \<open>\<open>node.remove()\<close>\<close>

definition remove :: "attrs list \<Rightarrow> node \<Rightarrow> node" where
  "remove anc n = Gone"

section \<open>The class list of an element\<close>

text \<open>
  The tokens of a \<open>class\<close> attribute: its text split on ASCII white space (tab, line
  feed, form feed, carriage return, space), each token once, in the order of first
  occurrence. \<open>split_tokens cur s\<close> reads \<open>s\<close> with the token \<open>cur\<close> in progress.
\<close>

definition is_ascii_space :: "char \<Rightarrow> bool" where
  "is_ascii_space c = (code_unit c \<in> {9, 10, 12, 13, 32})"

fun split_tokens :: "string \<Rightarrow> string \<Rightarrow> string list" where
  "split_tokens cur [] = (if cur = [] then [] else [cur])"
| "split_tokens cur (c # cs) =
     (if is_ascii_space c
      then (if cur = [] then split_tokens [] cs else cur # split_tokens [] cs)
      else split_tokens (cur @ [c]) cs)"

fun ordered_set :: "string list \<Rightarrow> string list \<Rightarrow> string list" where
  "ordered_set acc [] = acc"
| "ordered_set acc (t # ts) = ordered_set (if t \<in> set acc then acc else acc @ [t]) ts"

definition classList :: "attrs \<Rightarrow> string list" where
  "classList a = (case class_attr a of None \<Rightarrow> [] | Some s \<Rightarrow> ordered_set [] (split_tokens [] s))"

text \<open>
  Every change of the class list writes the attribute back: the tokens joined by single
  spaces. Nothing is written when the element has no \<open>class\<close> attribute and the list
  is empty.
\<close>

fun serialize :: "string list \<Rightarrow> string" where
  "serialize [] = []"
| "serialize [t] = t"
| "serialize (t # ts) = t @ CHR '' '' # serialize ts"

definition update_classList :: "string list \<Rightarrow> attrs \<Rightarrow> attrs" where
  "update_classList ts a =
     (if class_attr a = None \<and> ts = [] then a else a\<lparr>class_attr := Some (serialize ts)\<rparr>)"

definition classList_contains :: "string \<Rightarrow> attrs \<Rightarrow> bool" where
  "classList_contains t a = (t \<in> set (classList a))"

definition classList_add :: "string \<Rightarrow> attrs \<Rightarrow> attrs" where
  "classList_add t a =
     update_classList (if t \<in> set (classList a) then classList a else classList a @ [t]) a"

definition classList_remove :: "string \<Rightarrow> attrs \<Rightarrow> attrs" where
  "classList_remove t a = update_classList (filter (\<lambda>u. u \<noteq> t) (classList a)) a"

section \<open>Selectors and created elements\<close>

definition PREFIX :: string where
  "PREFIX = ''ff-yt''"

definition BLURRED :: string where
  "BLURRED = PREFIX @ ''-blurred''"

definition OVERLAY :: string where
  "OVERLAY = PREFIX @ ''-overlay''"

definition BADGE :: string where
  "BADGE = PREFIX @ ''-badge''"

definition by_class :: "string \<Rightarrow> selector" where
  "by_class c = (\<lambda>anc a. classList_contains c a)"

definition by_id :: "string \<Rightarrow> selector" where
  "by_id i = (\<lambda>anc a. ident a = i)"

text \<open>\<open>#thumbnail, ytd-thumbnail, .ytd-thumbnail\<close>\<close>

definition THUMBNAIL :: selector where
  "THUMBNAIL = (\<lambda>anc a. ident a = ''thumbnail'' \<or> tag a = ''ytd-thumbnail'' \<or>
                  classList_contains ''ytd-thumbnail'' a)"

text \<open>\<open>[style*="position: relative"]\<close>\<close>

definition POSITIONED :: selector where
  "POSITIONED = (\<lambda>anc a. style_position a = ''relative'')"

definition VIDEO_SELECTORS :: selector where
  "VIDEO_SELECTORS = (\<lambda>anc a. tag a \<in> set
     [''ytd-rich-item-renderer'', ''ytd-video-renderer'', ''ytd-compact-video-renderer'',
      ''ytd-grid-video-renderer'', ''ytd-reel-item-renderer''])"

text \<open>The title selectors, in the order the scan tries them: \<open>#video-title\<close>,
  \<open>#video-title-link\<close>, \<open>a#video-title\<close>, \<open>[id="video-title"]\<close>, \<open>h3 a\<close>, \<open>.title\<close>.\<close>

definition TITLE_SELECTORS :: "selector list" where
  "TITLE_SELECTORS =
     [by_id ''video-title'',
      by_id ''video-title-link'',
      (\<lambda>anc a. tag a = ''a'' \<and> ident a = ''video-title''),
      by_id ''video-title'',
      (\<lambda>anc a. tag a = ''a'' \<and> list_ex (\<lambda>x. tag x = ''h3'') anc),
      by_class ''title'']"

text \<open>The badge text, without its leading shield glyph (a code unit above 255).\<close>

definition BADGE_TEXT :: string where
  "BADGE_TEXT = '' Irrelevant to current goal''"

definition createElement :: "string \<Rightarrow> attrs" where
  "createElement t =
     \<lparr>tag = t, ident = [], class_attr = None, style_position = [], title_attr = Missing\<rparr>"

text \<open>\<open>overlay.className = ...; badge.className = ...; badge.textContent = ...;
  overlay.appendChild(badge)\<close>\<close>

definition overlay :: node where
  "overlay =
     Element ((createElement ''div'')\<lparr>class_attr := Some OVERLAY\<rparr>)
       [Element ((createElement ''div'')\<lparr>class_attr := Some BADGE\<rparr>) [Text BADGE_TEXT]]"

section \<open>Apply and remove filtering\<close>

text \<open>\<open>el.style.position = 'relative'; el.appendChild(overlay)\<close>\<close>

fun attach_overlay :: "attrs list \<Rightarrow> node \<Rightarrow> node" where
  "attach_overlay anc (Element a cs) =
     Element (a\<lparr>style_position := ''relative''\<rparr>) (cs @ [overlay])"
| "attach_overlay anc n = n"

text \<open>The thumbnail container is a descendant of the video element, so its
  \<open>parentElement\<close> exists: the node one step up its path.\<close>

fun markIrrelevant :: "node \<Rightarrow> node" where
  "markIrrelevant (Element a cs) =
     (if classList_contains BLURRED a then Element a cs
      else
        let videoElement = Element (classList_add BLURRED a) cs in
        case querySelector THUMBNAIL [] videoElement of
          Some thumbContainer \<Rightarrow> apply_at (butlast thumbContainer) attach_overlay [] videoElement
        | None \<Rightarrow> attach_overlay [] videoElement)"
| "markIrrelevant n = n"

text \<open>\<open>const ol = p.querySelector('.ff-yt-overlay'); if (ol) ol.remove()\<close>\<close>

definition remove_first_overlay :: "attrs list \<Rightarrow> node \<Rightarrow> node" where
  "remove_first_overlay anc p =
     (case querySelector (by_class OVERLAY) anc p of
        Some ol \<Rightarrow> apply_at ol remove anc p
      | None \<Rightarrow> p)"

fun markRelevant :: "node \<Rightarrow> node" where
  "markRelevant (Element a cs) =
     (let v0 = Element (classList_remove BLURRED a) cs;
          overlays = querySelectorAll (by_class OVERLAY) [] v0;
          v1 = forEach overlays remove [] v0;
          thumbParents = querySelectorAll POSITIONED [] v1
      in forEach thumbParents remove_first_overlay [] v1)"
| "markRelevant n = n"

section \<open>Scanning\<close>

text \<open>\<open>a || b\<close> on references: the first that is found.\<close>

fun first_found :: "selector list \<Rightarrow> attrs list \<Rightarrow> node \<Rightarrow> path option" where
  "first_found [] anc video = None"
| "first_found (sel # sels) anc video =
     (case querySelector sel anc video of
        Some p \<Rightarrow> Some p
      | None \<Rightarrow> first_found sels anc video)"

text \<open>\<open>(titleEl.textContent || titleEl.getAttribute('title') || '').trim()\<close>\<close>

fun title_text :: "node \<Rightarrow> string" where
  "title_text (Element a cs) =
     trim (if textContent (Element a cs) \<noteq> [] then textContent (Element a cs)
           else case title_attr a of Val t \<Rightarrow> t | _ \<Rightarrow> [])"
| "title_text n = []"

text \<open>The title of a video element: \<open>None\<close> when the scan returns early, because no
  title element is found or because the title is empty.\<close>

definition extractTitle :: "attrs list \<Rightarrow> node \<Rightarrow> string option" where
  "extractTitle anc video =
     (case first_found TITLE_SELECTORS anc video of
        None \<Rightarrow> None
      | Some p \<Rightarrow>
          (case node_at p video of
             None \<Rightarrow> None
           | Some titleEl \<Rightarrow>
               let title = title_text titleEl in
               if title = [] then None else Some title))"

text \<open>The body of the loop over the videos.\<close>

definition scan_video :: "string \<Rightarrow> attrs list \<Rightarrow> node \<Rightarrow> node" where
  "scan_video goal anc video =
     (case extractTitle anc video of
        None \<Rightarrow> video
      | Some title \<Rightarrow>
          if isRelevant goal title then markRelevant video else markIrrelevant video)"

definition clearAllFilters :: "node \<Rightarrow> node" where
  "clearAllFilters doc =
     forEach (document_querySelectorAll (by_class BLURRED) doc) (\<lambda>anc el. markRelevant el) [] doc"

text \<open>\<open>scanVideos\<close> reads the globals \<open>currentGoal\<close> and \<open>isEnabled\<close>: the arguments
  \<open>goal\<close> and \<open>enabled\<close> here.\<close>

definition scanVideos :: "string \<Rightarrow> bool \<Rightarrow> node \<Rightarrow> node" where
  "scanVideos goal enabled doc =
     (if \<not> enabled \<or> goal = [] then clearAllFilters doc
      else
        let videos = document_querySelectorAll VIDEO_SELECTORS doc in
        forEach videos (scan_video goal) [] doc)"


section \<open>State, timers and event handlers\<close>

text \<open>
  The script's variables, the document, and the part of the browser the script talks to:
  the pending timeouts (handle and due time, in milliseconds) with the next free handle.
  Two traces record what the script did: \<open>scans\<close>, the times at which \<open>scanVideos\<close> ran,
  and \<open>requests\<close>, the messages sent to the store. Handles are positive integers, as
  the \<open>if (scanTimer)\<close> test relies on. The only function ever passed to
  \<open>setTimeout\<close> is \<open>scanVideos\<close>.
\<close>

datatype request = GET_STATE

record page =
  currentGoal :: string
  isEnabled :: bool
  scanTimer :: "nat option"
  lastUrl :: string
  document :: node
  timeouts :: "(nat \<times> nat) list"
  next_handle :: nat
  scans :: "nat list"
  requests :: "request list"

text \<open>A call of \<open>scanVideos()\<close> at time \<open>now\<close>, and a call of \<open>clearAllFilters()\<close>.\<close>

definition scan_now :: "nat \<Rightarrow> page \<Rightarrow> page" where
  "scan_now now w =
     w\<lparr>document := scanVideos (currentGoal w) (isEnabled w) (document w),
       scans := scans w @ [now]\<rparr>"

definition clear_now :: "page \<Rightarrow> page" where
  "clear_now w = w\<lparr>document := clearAllFilters (document w)\<rparr>"

definition setTimeout :: "nat \<Rightarrow> nat \<Rightarrow> page \<Rightarrow> nat \<times> page" where
  "setTimeout delay now w =
     (next_handle w,
      w\<lparr>timeouts := timeouts w @ [(next_handle w, now + delay)],
        next_handle := Suc (next_handle w)\<rparr>)"

definition clearTimeout :: "nat \<Rightarrow> page \<Rightarrow> page" where
  "clearTimeout h w = w\<lparr>timeouts := filter (\<lambda>(h', due). h' \<noteq> h) (timeouts w)\<rparr>"

definition debouncedScan :: "nat \<Rightarrow> page \<Rightarrow> page" where
  "debouncedScan now w =
     (let w1 = (case scanTimer w of
                  Some h \<Rightarrow> if h \<noteq> 0 then clearTimeout h w else w
                | None \<Rightarrow> w);
          (h, w2) = setTimeout 300 now w1
      in w2\<lparr>scanTimer := Some h\<rparr>)"

text \<open>The observer's callback: a mutation record is given by the length of its
  \<open>addedNodes\<close>. The callbacks are events from outside, whatever inserted the nodes: the
  page, or the script itself when it attaches an overlay.\<close>

definition onMutations :: "nat \<Rightarrow> nat list \<Rightarrow> page \<Rightarrow> page" where
  "onMutations now mutations w =
     (let hasNewContent = list_ex (\<lambda>addedNodes. addedNodes > 0) mutations in
      if hasNewContent then debouncedScan now w else w)"

text \<open>The interval's callback, with the value of \<open>location.href\<close> it reads.\<close>

definition onInterval :: "nat \<Rightarrow> string \<Rightarrow> page \<Rightarrow> page" where
  "onInterval now href w =
     (if href \<noteq> lastUrl w then debouncedScan now (w\<lparr>lastUrl := href\<rparr>) else w)"

text \<open>The messages of the store. \<open>x || ''\<close> on a string field, the truth value of a boolean
  field, and \<open>x !== false\<close>:\<close>

datatype message = GOAL_UPDATED "string field" | TOGGLE_CHANGED "bool field" | OTHER_MESSAGE

definition or_empty :: "string field \<Rightarrow> string" where
  "or_empty x = (case x of Val s \<Rightarrow> s | _ \<Rightarrow> [])"

definition truthy :: "bool field \<Rightarrow> bool" where
  "truthy x = (x = Val True)"

definition not_false :: "bool field \<Rightarrow> bool" where
  "not_false x = (x \<noteq> Val False)"

definition onMessage :: "nat \<Rightarrow> message \<Rightarrow> page \<Rightarrow> page" where
  "onMessage now m w =
     (case m of
        GOAL_UPDATED goal \<Rightarrow> scan_now now (w\<lparr>currentGoal := or_empty goal\<rparr>)
      | TOGGLE_CHANGED enabled \<Rightarrow>
          (let w' = w\<lparr>isEnabled := truthy enabled\<rparr> in
           if \<not> isEnabled w' then clear_now w' else scan_now now w')
      | OTHER_MESSAGE \<Rightarrow> w)"

text \<open>The callback of the \<open>GET_STATE\<close> request: either \<open>chrome.runtime.lastError\<close> is set, or
  it is called with a response, which may be absent.\<close>

datatype state_response = StateResponse "string field" "bool field"

datatype reply = LastError | Answer "state_response field"

definition onState :: "nat \<Rightarrow> reply \<Rightarrow> page \<Rightarrow> page" where
  "onState now r w =
     (case r of
        LastError \<Rightarrow> w
      | Answer response \<Rightarrow>
          (case response of
             Val (StateResponse focusGoal enabled) \<Rightarrow>
               scan_now now (w\<lparr>currentGoal := or_empty focusGoal, isEnabled := not_false enabled\<rparr>)
           | _ \<Rightarrow> w))"

text \<open>The page once the script has run: the request is out, no scan has run, no timeout
  is pending.\<close>

definition startup :: "node \<Rightarrow> string \<Rightarrow> nat \<Rightarrow> page" where
  "startup doc href h =
     \<lparr>currentGoal = [], isEnabled = True, scanTimer = None, lastUrl = href, document = doc,
      timeouts = [], next_handle = h, scans = [], requests = [GET_STATE]\<rparr>"

text \<open>
  The event loop, on events in the order of their times: before an event at time \<open>t\<close> is
  handled, the timeouts due by \<open>t\<close> fire at their due times, earliest first.
\<close>

datatype event =
    Mutations "nat list"
  | Interval string
  | Message message
  | StateReply reply

definition handle_event :: "nat \<Rightarrow> event \<Rightarrow> page \<Rightarrow> page" where
  "handle_event now e w =
     (case e of
        Mutations ms \<Rightarrow> onMutations now ms w
      | Interval href \<Rightarrow> onInterval now href w
      | Message m \<Rightarrow> onMessage now m w
      | StateReply r \<Rightarrow> onState now r w)"

definition advance :: "nat \<Rightarrow> page \<Rightarrow> page" where
  "advance t w =
     fold (\<lambda>(h, due) w'. scan_now due w')
       (sort_key snd (filter (\<lambda>(h, due). due \<le> t) (timeouts w)))
       (w\<lparr>timeouts := filter (\<lambda>(h, due). \<not> due \<le> t) (timeouts w)\<rparr>)"

fun run :: "(nat \<times> event) list \<Rightarrow> page \<Rightarrow> page" where
  "run [] w = w"
| "run ((t, e) # es) w = run es (handle_event t e (advance t w))"

section \<open>Notions used in the statements\<close>

subsection \<open>Keywords\<close>

text \<open>
  The letters that come in two cases, among the code units 0 to 255: \<open>A\<close> to \<open>Z\<close> and
  the capital letters U+00C0 to U+00DE of Latin-1 (U+00D7, the multiplication sign, is not
  a letter), each with its small letter in the same place of the second table. Two
  characters are the same letter when they are equal or one is the capital and the other
  the small letter of one pair. Two strings are equal up to case when they have the same
  length and the same letter at every place.
\<close>

definition capital_letters :: string where
  "capital_letters =
     ''ABCDEFGHIJKLMNOPQRSTUVWXYZ'' @ map char_of ([192..<215] @ [216..<223] :: nat list)"

definition small_letters :: string where
  "small_letters =
     ''abcdefghijklmnopqrstuvwxyz'' @ map char_of ([224..<247] @ [248..<255] :: nat list)"

definition letter_cases :: "(char \<times> char) list" where
  "letter_cases = zip capital_letters small_letters"

definition same_letter :: "char \<Rightarrow> char \<Rightarrow> bool" where
  "same_letter c d = (c = d \<or> (c, d) \<in> set letter_cases \<or> (d, c) \<in> set letter_cases)"

definition eq_ignoring_case :: "string \<Rightarrow> string \<Rightarrow> bool" where
  "eq_ignoring_case a b = list_all2 same_letter a b"

text \<open>
  A keyword is a case-insensitive substring of a title when some substring of the title
  equals the keyword up to the case of its letters.
\<close>

definition ci_substring :: "string \<Rightarrow> string \<Rightarrow> bool" where
  "ci_substring kw t = (\<exists>s. sublist s t \<and> eq_ignoring_case s kw)"

text \<open>
  Splitting on white-space runs: the tokens of a string are its maximal stretches without
  white space. The keyword set of the specification is written with them, set for set.
\<close>

definition spec_tokens :: "string \<Rightarrow> string set" where
  "spec_tokens s =
     {w. \<exists>pre post. s = pre @ w @ post \<and> \<not> list_ex is_space w \<and>
           (pre = [] \<or> is_space (last pre)) \<and> (post = [] \<or> is_space (hd post))}"

definition spec_extractKeywords :: "string field \<Rightarrow> string set" where
  "spec_extractKeywords text =
     (case text of
        Val s \<Rightarrow>
          if s = [] then {}
          else {w \<in> spec_tokens (replace_special (toLowerCase s)).
                  \<not> length w \<le> 2 \<and> w \<notin> set STOP_WORDS}
      | _ \<Rightarrow> {})"

subsection \<open>Class tokens\<close>

text \<open>A token has at least one character and no white space; a token list has each
  token once.\<close>

definition token :: "string \<Rightarrow> bool" where
  "token t = (t \<noteq> [] \<and> \<not> list_ex is_ascii_space t)"

definition token_list :: "string list \<Rightarrow> bool" where
  "token_list ts = (distinct ts \<and> list_all token ts)"

subsection \<open>Annotation state\<close>

text \<open>
  An element is marked when it carries the class the script tests for; its badges are the
  overlay elements below it; the marked elements of a document are what
  \<open>clearAllFilters\<close> looks for. An element is unmarked when it has neither the class nor
  a badge, as an element the script has never touched.
\<close>

fun is_element :: "node \<Rightarrow> bool" where
  "is_element (Element a cs) = True"
| "is_element n = False"

fun is_marked :: "node \<Rightarrow> bool" where
  "is_marked (Element a cs) = classList_contains BLURRED a"
| "is_marked n = False"

definition badges :: "node \<Rightarrow> nat" where
  "badges x = length (querySelectorAll (by_class OVERLAY) [] x)"

definition unmarked :: "node \<Rightarrow> bool" where
  "unmarked x = (is_element x \<and> \<not> is_marked x \<and> badges x = 0)"

definition marked_elements :: "node \<Rightarrow> path list" where
  "marked_elements doc = document_querySelectorAll (by_class BLURRED) doc"

text \<open>A sequence of calls on one item, and a call on an element below it.\<close>

datatype call = MarkIrrelevant | MarkRelevant

fun perform :: "call \<Rightarrow> node \<Rightarrow> node" where
  "perform MarkIrrelevant item = markIrrelevant item"
| "perform MarkRelevant item = markRelevant item"

definition call_at :: "call \<Rightarrow> path \<Rightarrow> node \<Rightarrow> node" where
  "call_at c p d = apply_at p (\<lambda>anc item. perform c item) [] d"

text \<open>A tidy element: one badge below it when it is marked, none when it is not.\<close>

definition tidy :: "node \<Rightarrow> bool" where
  "tidy x = (is_element x \<and> badges x = (if is_marked x then 1 else 0))"

text \<open>
  The element \<open>markIrrelevant\<close> attaches the overlay to: the parent of the first
  thumbnail container, or the item itself.
\<close>

definition overlay_host :: "node \<Rightarrow> path" where
  "overlay_host x = (case querySelector THUMBNAIL [] x of Some p \<Rightarrow> butlast p | None \<Rightarrow> [])"

text \<open>
  What marking and clearing again leaves behind. At the element the overlay was attached
  to: the inline position. At the item: a \<open>class\<close> attribute that holds its tokens
  joined by single spaces (the empty text for an item without tokens, also where the item
  had no such attribute). \<open>live\<close> drops the slots of removed nodes: the tree as the
  document has it. \<open>without_overlays\<close> is the tree as the document has it once every
  overlay element below the root is removed.
\<close>

fun set_relative :: "attrs list \<Rightarrow> node \<Rightarrow> node" where
  "set_relative anc (Element a cs) = Element (a\<lparr>style_position := ''relative''\<rparr>) cs"
| "set_relative anc n = n"

fun rewritten :: "node \<Rightarrow> node" where
  "rewritten (Element a cs) = Element (a\<lparr>class_attr := Some (serialize (classList a))\<rparr>) cs"
| "rewritten n = n"

fun live :: "node \<Rightarrow> node" where
  "live (Element a cs) = Element a (map live (filter (\<lambda>c. c \<noteq> Gone) cs))"
| "live n = n"

fun is_overlay :: "node \<Rightarrow> bool" where
  "is_overlay (Element a cs) = classList_contains OVERLAY a"
| "is_overlay n = False"

fun without_overlays :: "node \<Rightarrow> node" where
  "without_overlays (Element a cs) =
     Element a (map without_overlays (filter (\<lambda>c. c \<noteq> Gone \<and> \<not> is_overlay c) cs))"
| "without_overlays n = n"

fun class_at :: "path \<Rightarrow> node \<Rightarrow> string option" where
  "class_at p n = (case node_at p n of Some (Element a cs) \<Rightarrow> class_attr a | _ \<Rightarrow> None)"

fun position_at :: "path \<Rightarrow> node \<Rightarrow> string" where
  "position_at p n = (case node_at p n of Some (Element a cs) \<Rightarrow> style_position a | _ \<Rightarrow> [])"

text \<open>A selector that does not look at the ancestors.\<close>

definition plain :: "selector \<Rightarrow> bool" where
  "plain sel = (\<forall>anc anc' a. sel anc a = sel anc' a)"

subsection \<open>Timers\<close>

text \<open>
  One timeout is pending and it is the one \<open>scanTimer\<close> holds. A burst of observer
  callbacks is a list of times with the mutation records delivered at each; in a chain
  every callback comes before the timeout of the one before it is due.
\<close>

definition armed :: "nat \<Rightarrow> nat \<Rightarrow> page \<Rightarrow> bool" where
  "armed h due w = (timeouts w = [(h, due)] \<and> scanTimer w = Some h \<and> h \<noteq> 0 \<and> next_handle w \<noteq> 0)"

definition as_events :: "(nat \<times> nat list) list \<Rightarrow> (nat \<times> event) list" where
  "as_events burst = map (\<lambda>(t, mutations). (t, Mutations mutations)) burst"

fun chain :: "nat \<Rightarrow> (nat \<times> nat list) list \<Rightarrow> bool" where
  "chain due [] = True"
| "chain due ((t, ms) # es) = (t < due \<and> list_ex (\<lambda>m. m > 0) ms \<and> chain (t + 300) es)"

subsection \<open>Sample documents\<close>

definition titled_video :: "string \<Rightarrow> node" where
  "titled_video t =
     Element (createElement ''ytd-video-renderer'')
       [Element (createElement ''div'') [Element ((createElement ''img'')\<lparr>ident := ''thumbnail''\<rparr>) []],
        Element ((createElement ''a'')\<lparr>ident := ''video-title''\<rparr>) [Text t]]"




definition sample_video :: node where
  "sample_video = titled_video ''Cute cat compilation''"

text \<open>A video element whose \<open>class\<close> attribute has two tokens, two spaces between them
  and one after them; and the same element as one marking and clearing leaves it.\<close>

definition spaced_video :: node where
  "spaced_video =
     Element ((createElement ''ytd-video-renderer'')
                \<lparr>class_attr := Some ''style-scope  ytd-item-section-renderer ''\<rparr>)
       [Element (createElement ''div'') [Element ((createElement ''img'')\<lparr>ident := ''thumbnail''\<rparr>) []],
        Element ((createElement ''a'')\<lparr>ident := ''video-title''\<rparr>) [Text ''Cute cat compilation'']]"

definition settled_video :: node where
  "settled_video = rewritten (apply_at [0] set_relative [] spaced_video)"

text \<open>A video element inside a grid item: both match the selectors of the scan, and they
  share the thumbnail and the title.\<close>

definition nested_item :: node where
  "nested_item = Element (createElement ''ytd-rich-item-renderer'') [sample_video]"

definition nested_feed :: node where
  "nested_feed = Element (createElement ''body'') [nested_item]"


text \<open>A marked video element whose title element is gone.\<close>

definition cx_video :: node where
  "cx_video = Element ((createElement ''ytd-video-renderer'')\<lparr>class_attr := Some BLURRED\<rparr>) [overlay]"

text \<open>A grid item that is not marked and holds the marked video element.\<close>

definition holder :: node where
  "holder = Element (createElement ''ytd-rich-item-renderer'') [cx_video]"

definition cx_doc :: node where
  "cx_doc = Element (createElement ''body'') [cx_video]"


definition sample_burst :: "(nat \<times> nat list) list" where
  "sample_burst = [(1000, [0, 1]), (1100, [2]), (1299, [1])]"

section \<open>Keywords and relevance: proofs\<close>

text \<open>The examples of the specification, computed.\<close>

lemma keyword_examples:
  "extractKeywords (Val ''learn rust programming'') = [''learn'', ''rust'', ''programming''] \<and>
   isRelevant ''learn rust programming'' ''Rust ownership explained'' \<and>
   \<not> isRelevant ''learn rust programming'' ''Cute cat compilation'' \<and>
   isRelevant [] ''Cute cat compilation'' \<and>
   split_ws '' a  b '' = [[], ''a'', ''b'', []]"
  by code_simp

lemma str_includes_sublist: "str_includes t kw = sublist kw t"
proof (induction t)
  case Nil
  show ?case by simp
next
  case (Cons c cs)
  have "take (length kw) (c # cs) = kw \<longleftrightarrow> prefix kw (c # cs)"
    by (metis append_eq_conv_conj prefix_def take_is_prefix)
  with Cons show ?case by (simp add: sublist_Cons_right)
qed

lemma split_ws_last:
  "dropWhile (\<lambda>c. \<not> is_space c) s = [] \<Longrightarrow> split_ws s = [s]"
  by (subst split_ws.simps) (simp add: Let_def takeWhile_eq_all_conv [THEN iffD2])

lemma split_ws_more:
  "dropWhile (\<lambda>c. \<not> is_space c) s \<noteq> [] \<Longrightarrow>
   split_ws s = takeWhile (\<lambda>c. \<not> is_space c) s #
     split_ws (dropWhile is_space (dropWhile (\<lambda>c. \<not> is_space c) s))"
  by (subst split_ws.simps) (simp add: Let_def del: dropWhile_eq_Nil_conv)

lemma split_ws_chars:
  "w \<in> set (split_ws s) \<Longrightarrow> set w \<subseteq> set s \<and> \<not> list_ex is_space w"
proof (induction s rule: split_ws.induct)
  case (1 s)
  let ?P = "\<lambda>c. \<not> is_space c"
  let ?rest = "dropWhile ?P s"
  have piece: "set (takeWhile ?P s) \<subseteq> set s \<and> \<not> list_ex is_space (takeWhile ?P s)"
    by (auto simp: list_ex_iff dest: set_takeWhileD)
  show ?case
  proof (cases "?rest = []")
    case True
    with "1.prems" have "w = s"
      by (simp add: split_ws_last del: dropWhile_eq_Nil_conv)
    then show ?thesis using True by (simp add: list_ex_iff)
  next
    case False
    with "1.prems" have "w = takeWhile ?P s \<or> w \<in> set (split_ws (dropWhile is_space ?rest))"
      by (simp add: split_ws_more del: dropWhile_eq_Nil_conv)
    then show ?thesis
    proof
      assume "w = takeWhile ?P s"
      with piece show ?thesis by simp
    next
      assume "w \<in> set (split_ws (dropWhile is_space ?rest))"
      with False "1.IH" [OF refl refl]
      have "set w \<subseteq> set (dropWhile is_space ?rest) \<and> \<not> list_ex is_space w" by simp
      moreover have "set (dropWhile is_space ?rest) \<subseteq> set s"
        by (meson set_dropWhileD subsetI)
      ultimately show ?thesis by blast
    qed
  qed
qed

lemma is_space_blank: "is_space CHR '' ''"
  by (simp add: is_space_def code_unit_def)

lemma replace_special_chars: "c \<in> set (replace_special s) \<Longrightarrow> is_az09 c \<or> is_space c"
  by (auto simp: replace_special_def is_space_blank split: if_splits)

lemma keyword_chars:
  assumes "kw \<in> set (extractKeywords text)" and "c \<in> set kw"
  shows "is_az09 c"
proof -
  from assms(1) obtain s where s: "text = Val s" "s \<noteq> []"
    and kw: "kw \<in> set (split_ws (replace_special (toLowerCase s)))"
    by (auto simp: extractKeywords_def split: field.splits if_splits)
  from split_ws_chars [OF kw] assms(2)
  have "c \<in> set (replace_special (toLowerCase s))" and "\<not> is_space c"
    by (auto simp: list_ex_iff)
  with replace_special_chars show ?thesis by blast
qed

lemma az09_not_upper: "is_az09 c \<Longrightarrow> \<not> is_upper c"
  by (auto simp: is_az09_def is_upper_def Let_def)

lemma keyword_lower:
  assumes "kw \<in> set (extractKeywords text)"
  shows "toLowerCase kw = kw"
  unfolding toLowerCase_def
  by (rule map_idI) (simp add: lower_unit_def az09_not_upper keyword_chars [OF assms])

text \<open>Equality up to case, and what \<open>toLowerCase\<close> computes.\<close>

lemma capital_units:
  "map code_unit capital_letters = [65..<91] @ [192..<215] @ [216..<223]"
  by (simp add: capital_letters_def code_unit_def)

lemma small_units:
  "map code_unit small_letters = map (\<lambda>n. n + 32) (map code_unit capital_letters)"
  unfolding capital_units by (simp add: small_letters_def code_unit_def)

lemma zip_map_same: "zip xs (map f xs) = map (\<lambda>x. (x, f x)) xs"
  by (induction xs) simp_all

lemma small_letters_eq:
  "small_letters = map (\<lambda>c. char_of (code_unit c + 32)) capital_letters"
proof -
  have "small_letters = map char_of (map code_unit small_letters)"
    by (simp add: code_unit_def comp_def)
  also have "\<dots> = map (\<lambda>c. char_of (code_unit c + 32)) capital_letters"
    unfolding small_units by (simp add: comp_def)
  finally show ?thesis .
qed

lemma capital_iff: "c \<in> set capital_letters \<longleftrightarrow> is_upper c"
proof -
  have "c \<in> set capital_letters \<longleftrightarrow> code_unit c \<in> code_unit ` set capital_letters"
    by (auto simp: code_unit_def)
  also have "code_unit ` set capital_letters = set (map code_unit capital_letters)" by simp
  also have "\<dots> = {65..<91} \<union> {192..<215} \<union> {216..<223}"
    unfolding capital_units by (simp only: set_append set_upt Un_assoc)
  also have "code_unit c \<in> \<dots> \<longleftrightarrow> is_upper c"
    by (auto simp: is_upper_def Let_def)
  finally show ?thesis .
qed

lemma letter_cases_iff:
  "(u, l) \<in> set letter_cases \<longleftrightarrow> is_upper u \<and> l = char_of (code_unit u + 32)"
  unfolding letter_cases_def small_letters_eq zip_map_same
  by (auto simp: capital_iff)

lemma small_not_upper: "is_upper u \<Longrightarrow> \<not> is_upper (char_of (code_unit u + 32))"
  by (auto simp: is_upper_def Let_def code_unit_def)

lemma small_inj:
  assumes "is_upper c" "is_upper d" "char_of (code_unit c + 32) = char_of (code_unit d + 32)"
  shows "c = d"
proof -
  from assms(1,2) have "code_unit c + 32 < 256" "code_unit d + 32 < 256"
    by (auto simp: is_upper_def Let_def)
  with assms(3) have "code_unit c = code_unit d" by simp
  then show ?thesis by (simp add: code_unit_def)
qed

lemma lower_unit_same_letter: "lower_unit c = lower_unit d \<longleftrightarrow> same_letter c d"
  unfolding same_letter_def letter_cases_iff
  using small_not_upper [of c] small_not_upper [of d] small_inj [of c d]
  by (auto simp: lower_unit_def)

lemma eq_ignoring_case_lower: "eq_ignoring_case a b \<longleftrightarrow> toLowerCase a = toLowerCase b"
  unfolding toLowerCase_def eq_ignoring_case_def
proof (induction a arbitrary: b)
  case Nil
  show ?case by auto
next
  case (Cons x a)
  show ?case by (cases b) (auto simp: Cons.IH lower_unit_same_letter)
qed

text \<open>The relation on examples, read off the two tables.\<close>

lemma char_eq_iff: "c = d \<longleftrightarrow> code_unit c = code_unit d"
  by (simp add: code_unit_def)

lemma same_letter_examples:
  "same_letter CHR ''R'' CHR ''r'' \<and> same_letter CHR ''r'' CHR ''R'' \<and>
   same_letter CHR ''r'' CHR ''r'' \<and> \<not> same_letter CHR ''r'' CHR ''s'' \<and>
   \<not> same_letter CHR ''R'' CHR ''2''"
  by (simp add: same_letter_def letter_cases_iff is_upper_def Let_def char_eq_iff code_unit_def)

lemma eq_ignoring_case_examples:
  "eq_ignoring_case ''RUST'' ''rust'' \<and> eq_ignoring_case ''Rust'' ''rUSt'' \<and>
   \<not> eq_ignoring_case ''RUST'' ''rusty'' \<and> \<not> eq_ignoring_case ''RUSS'' ''rust''"
  by (simp add: eq_ignoring_case_def same_letter_def letter_cases_iff is_upper_def Let_def
      char_eq_iff code_unit_def)

lemma ci_substring_lower: "ci_substring kw t = sublist (toLowerCase kw) (toLowerCase t)"
proof
  assume "ci_substring kw t"
  then obtain s ps ss where "t = ps @ s @ ss" "toLowerCase s = toLowerCase kw"
    by (auto simp: ci_substring_def eq_ignoring_case_lower sublist_def)
  then have "toLowerCase t = toLowerCase ps @ toLowerCase kw @ toLowerCase ss"
    by (simp add: toLowerCase_def)
  then show "sublist (toLowerCase kw) (toLowerCase t)"
    unfolding sublist_def by blast
next
  assume "sublist (toLowerCase kw) (toLowerCase t)"
  then obtain ps ss where "map lower_unit t = ps @ map lower_unit kw @ ss"
    by (auto simp: sublist_def toLowerCase_def)
  then obtain p r where t: "t = p @ r" and "map lower_unit r = map lower_unit kw @ ss"
    by (metis map_eq_append_conv)
  then obtain m q where "r = m @ q" and "map lower_unit m = map lower_unit kw"
    by (metis map_eq_append_conv)
  with t show "ci_substring kw t"
    unfolding ci_substring_def eq_ignoring_case_lower toLowerCase_def sublist_def by blast
qed

text \<open>
  Claim C1. For a goal whose keyword set is not empty and every title, \<open>isRelevant\<close>
  holds exactly when some keyword of the goal is a case-insensitive substring of the
  title: containment anywhere in the title, not a whole-word match.
\<close>

theorem isRelevant_iff_some_keyword:
  assumes "extractKeywords (Val g) \<noteq> []"
  shows "isRelevant g t \<longleftrightarrow> (\<exists>kw \<in> set (extractKeywords (Val g)). ci_substring kw t)"
proof -
  from assms have g: "g \<noteq> []"
    by (auto simp: extractKeywords_def)
  have "isRelevant g t \<longleftrightarrow>
        (\<exists>kw \<in> set (extractKeywords (Val g)). sublist kw (toLowerCase t))"
    using assms g by (simp add: isRelevant_def Let_def list_ex_iff str_includes_sublist)
  also have "\<dots> \<longleftrightarrow> (\<exists>kw \<in> set (extractKeywords (Val g)). ci_substring kw t)"
    by (simp add: ci_substring_lower keyword_lower cong: bex_cong)
  finally show ?thesis .
qed

theorem isRelevant_iff_some_keyword_witness:
  "extractKeywords (Val ''learn rust programming'') \<noteq> [] \<and>
   isRelevant ''learn rust programming'' ''RUST ownership explained'' \<and>
   (\<exists>kw \<in> set (extractKeywords (Val ''learn rust programming'')).
      ci_substring kw ''RUST ownership explained'') \<and>
   extractKeywords (Val ''Art'') \<noteq> [] \<and>
   isRelevant ''Art'' ''Smart contract'' \<and>
   (\<exists>kw \<in> set (extractKeywords (Val ''Art'')). ci_substring kw ''Smart contract'') \<and>
   \<not> isRelevant ''learn rust programming'' ''Cute cat compilation'' \<and>
   \<not> (\<exists>kw \<in> set (extractKeywords (Val ''learn rust programming'')).
        ci_substring kw ''Cute cat compilation'')"
proof -
  have k1: "extractKeywords (Val ''Art'') \<noteq> []" by code_simp
  have r1: "isRelevant ''Art'' ''Smart contract''" by code_simp
  have k2: "extractKeywords (Val ''learn rust programming'') \<noteq> []" by code_simp
  have r2: "\<not> isRelevant ''learn rust programming'' ''Cute cat compilation''" by code_simp
  have r3: "isRelevant ''learn rust programming'' ''RUST ownership explained''" by code_simp
  from isRelevant_iff_some_keyword [OF k1, of "''Smart contract''"]
    isRelevant_iff_some_keyword [OF k2, of "''Cute cat compilation''"]
    isRelevant_iff_some_keyword [OF k2, of "''RUST ownership explained''"] k1 k2 r1 r2 r3
  show ?thesis by simp
qed

text \<open>
  Claim C2. When the keyword set of the goal text is empty, every title is relevant.
\<close>

theorem isRelevant_fail_open:
  "extractKeywords (Val g) = [] \<Longrightarrow> isRelevant g t"
  by (simp add: isRelevant_def)

theorem isRelevant_fail_open_witness:
  "extractKeywords (Val ''to be or not to be'') = [] \<and>
   isRelevant ''to be or not to be'' ''Cute cat compilation''"
proof -
  have k: "extractKeywords (Val ''to be or not to be'') = []" by code_simp
  from isRelevant_fail_open [OF k, of "''Cute cat compilation''"] k show ?thesis by simp
qed

lemma last_dropWhile_nonempty:
  "dropWhile Q xs \<noteq> [] \<Longrightarrow> last (dropWhile Q xs) = last xs"
  by (metis last_appendR takeWhile_dropWhile_id)

lemma tokens_step:
  fixes s :: string
  defines "rest \<equiv> dropWhile (\<lambda>c. \<not> is_space c) s"
  assumes ne: "rest \<noteq> []" and w: "w \<noteq> []"
  shows "w \<in> spec_tokens s \<longleftrightarrow>
         w = takeWhile (\<lambda>c. \<not> is_space c) s \<or> w \<in> spec_tokens (dropWhile is_space rest)"
proof -
  let ?P = "\<lambda>c. \<not> is_space c"
  let ?piece = "takeWhile ?P s"
  let ?sp = "takeWhile is_space rest"
  let ?s' = "dropWhile is_space rest"
  have s: "s = ?piece @ rest" by (simp add: rest_def)
  have r: "rest = ?sp @ ?s'" by simp
  have hd_rest: "is_space (hd rest)"
    using ne hd_dropWhile [of ?P s] by (auto simp: rest_def)
  then have sp_ne: "?sp \<noteq> []" using ne by (cases rest) auto
  have sp_all: "\<forall>c \<in> set ?sp. is_space c" by (auto dest: set_takeWhileD)
  show ?thesis
  proof
    assume "w \<in> spec_tokens s"
    then obtain pre post where dec: "s = pre @ w @ post" and nosp: "\<not> list_ex is_space w"
      and pre: "pre = [] \<or> is_space (last pre)" and post: "post = [] \<or> is_space (hd post)"
      by (auto simp: spec_tokens_def)
    show "w = ?piece \<or> w \<in> spec_tokens ?s'"
    proof (cases "pre = []")
      case True
      have "takeWhile ?P post = []" using post by (cases post) auto
      then have "takeWhile ?P (w @ post) = w"
        using nosp by (simp add: takeWhile_append2 list_ex_iff)
      with True dec show ?thesis by simp
    next
      case False
      with pre have lp: "is_space (last pre)" by simp
      have in_pre: "last pre \<in> set pre" using False by simp
      define pre1 where "pre1 = dropWhile ?P pre"
      have rest_eq: "rest = pre1 @ w @ post"
        unfolding rest_def pre1_def dec using in_pre lp
        by (simp add: dropWhile_append1 [of "last pre"])
      have pre1_ne: "pre1 \<noteq> []"
        unfolding pre1_def using in_pre lp by (auto simp: dropWhile_eq_Nil_conv)
      then have last1: "last pre1 = last pre"
        unfolding pre1_def by (rule last_dropWhile_nonempty)
      have hdw: "\<not> is_space (hd w)" using w nosp by (cases w) (auto simp: list_ex_iff)
      show ?thesis
      proof (cases "\<forall>c \<in> set pre1. is_space c")
        case True
        then have "?s' = dropWhile is_space (w @ post)"
          by (simp add: rest_eq dropWhile_append2)
        also have "\<dots> = w @ post" using w hdw by (cases w) auto
        finally have "?s' = [] @ w @ post" by simp
        then have "w \<in> spec_tokens ?s'"
          unfolding spec_tokens_def using nosp post by blast
        then show ?thesis ..
      next
        case False
        then obtain x where x: "x \<in> set pre1" "\<not> is_space x" by blast
        then have eq: "?s' = dropWhile is_space pre1 @ w @ post"
          by (simp add: rest_eq dropWhile_append1 [of x])
        have ne': "dropWhile is_space pre1 \<noteq> []"
          using x by (auto simp: dropWhile_eq_Nil_conv)
        then have "last (dropWhile is_space pre1) = last pre"
          using last_dropWhile_nonempty [of is_space pre1] last1 by simp
        with lp have "is_space (last (dropWhile is_space pre1))" by simp
        with eq nosp post have "\<exists>pre post. ?s' = pre @ w @ post \<and> \<not> list_ex is_space w \<and>
            (pre = [] \<or> is_space (last pre)) \<and> (post = [] \<or> is_space (hd post))"
          by (intro exI [of _ "dropWhile is_space pre1"] exI [of _ post]) simp
        then have "w \<in> spec_tokens ?s'"
          unfolding spec_tokens_def by simp
        then show ?thesis ..
      qed
    qed
  next
    assume "w = ?piece \<or> w \<in> spec_tokens ?s'"
    then show "w \<in> spec_tokens s"
    proof
      assume wp: "w = ?piece"
      have "\<not> list_ex is_space ?piece" by (auto simp: list_ex_iff dest: set_takeWhileD)
      moreover have "s = [] @ ?piece @ rest" using s by simp
      ultimately show ?thesis
        unfolding spec_tokens_def wp using hd_rest by blast
    next
      assume "w \<in> spec_tokens ?s'"
      then obtain pre post where dec: "?s' = pre @ w @ post" and nosp: "\<not> list_ex is_space w"
        and pre: "pre = [] \<or> is_space (last pre)" and post: "post = [] \<or> is_space (hd post)"
        by (auto simp: spec_tokens_def)
      have "s = (?piece @ ?sp @ pre) @ w @ post"
        using s r dec by (metis append.assoc)
      moreover have "is_space (last (?piece @ ?sp @ pre))"
      proof (cases "pre = []")
        case True
        then show ?thesis using sp_ne sp_all by (simp add: last_in_set)
      next
        case False
        then show ?thesis using pre by simp
      qed
      ultimately show ?thesis
        unfolding spec_tokens_def using nosp post by blast
    qed
  qed
qed

lemma tokens_no_space:
  fixes s :: string
  assumes "dropWhile (\<lambda>c. \<not> is_space c) s = []" and w: "w \<noteq> []"
  shows "w \<in> spec_tokens s \<longleftrightarrow> w = s"
proof -
  from assms(1) have all: "\<forall>c \<in> set s. \<not> is_space c"
    by (simp add: dropWhile_eq_Nil_conv)
  show ?thesis
  proof
    assume "w \<in> spec_tokens s"
    then obtain pre post where dec: "s = pre @ w @ post"
      and pre: "pre = [] \<or> is_space (last pre)" and post: "post = [] \<or> is_space (hd post)"
      by (auto simp: spec_tokens_def)
    have "pre = []"
    proof (rule ccontr)
      assume "pre \<noteq> []"
      with pre have "is_space (last pre)" "last pre \<in> set s" by (auto simp: dec)
      with all show False by blast
    qed
    moreover have "post = []"
    proof (rule ccontr)
      assume "post \<noteq> []"
      with post have "is_space (hd post)" "hd post \<in> set s" by (auto simp: dec)
      with all show False by blast
    qed
    ultimately show "w = s" using dec by simp
  next
    assume "w = s"
    moreover have "\<exists>pre post. s = pre @ s @ post \<and> \<not> list_ex is_space s \<and>
        (pre = [] \<or> is_space (last pre)) \<and> (post = [] \<or> is_space (hd post))"
      using all by (intro exI [of _ "[]"]) (simp add: list_ex_iff)
    ultimately show "w \<in> spec_tokens s"
      unfolding spec_tokens_def by simp
  qed
qed

lemma split_ws_tokens:
  "w \<noteq> [] \<Longrightarrow> w \<in> set (split_ws s) \<longleftrightarrow> w \<in> spec_tokens s"
proof (induction s rule: split_ws.induct)
  case (1 s)
  let ?P = "\<lambda>c. \<not> is_space c"
  let ?rest = "dropWhile ?P s"
  show ?case
  proof (cases "?rest = []")
    case True
    then have "split_ws s = [s]" by (rule split_ws_last)
    with True "1.prems" show ?thesis by (simp add: tokens_no_space del: dropWhile_eq_Nil_conv)
  next
    case False
    then have "split_ws s = takeWhile ?P s # split_ws (dropWhile is_space ?rest)"
      by (rule split_ws_more)
    moreover have "w \<in> set (split_ws (dropWhile is_space ?rest)) \<longleftrightarrow>
        w \<in> spec_tokens (dropWhile is_space ?rest)"
      using "1.IH" [OF refl refl False "1.prems"] .
    ultimately show ?thesis
      using tokens_step [OF False "1.prems"] by simp
  qed
qed

lemma extractKeywords_set:
  "set (extractKeywords text) = spec_extractKeywords text"
proof (cases "text")
  case (Val s)
  have key: "w \<in> set (split_ws u) \<longleftrightarrow> w \<in> spec_tokens u" if "2 < length w" for w u
    using that by (intro split_ws_tokens) auto
  show ?thesis
    unfolding Val extractKeywords_def spec_extractKeywords_def
    by (auto simp: key not_le)
qed (simp_all add: extractKeywords_def spec_extractKeywords_def)

text \<open>
  Claim C4. \<open>extractKeywords\<close> returns nothing on an absent or empty input, and otherwise
  the words of the specification: the input in lower case, every character outside
  \<open>[a-z0-9]\<close> and white space replaced by a space, split on white-space runs, without
  the tokens of length at most 2 and the stop words. It is a function of its input alone.
\<close>

theorem extractKeywords_spec:
  "set (extractKeywords text) = spec_extractKeywords text \<and>
   extractKeywords Missing = [] \<and> extractKeywords Null = [] \<and> extractKeywords (Val []) = []"
  by (simp add: extractKeywords_set) (simp add: extractKeywords_def)

theorem extractKeywords_spec_witness:
  "spec_extractKeywords (Val ''Learn the Rust-lang  basics!'') =
     {''learn'', ''rust'', ''lang'', ''basics''}"
proof -
  have e: "extractKeywords (Val ''Learn the Rust-lang  basics!'') =
      [''learn'', ''rust'', ''lang'', ''basics'']" by code_simp
  from extractKeywords_spec [of "Val ''Learn the Rust-lang  basics!''"] e
  show ?thesis by simp
qed

section \<open>The class list: proofs\<close>

lemma split_tokens_token:
  "\<not> list_ex is_ascii_space cur \<Longrightarrow> list_all token (split_tokens cur s)"
  by (induction s arbitrary: cur) (simp_all add: token_def)

lemma ordered_set_distinct: "distinct acc \<Longrightarrow> distinct (ordered_set acc ts)"
  by (induction ts arbitrary: acc) simp_all

lemma ordered_set_set: "set (ordered_set acc ts) = set acc \<union> set ts"
  by (induction ts arbitrary: acc) auto

lemma ordered_set_id: "distinct (acc @ ts) \<Longrightarrow> ordered_set acc ts = acc @ ts"
  by (induction ts arbitrary: acc) simp_all

lemma token_list_classList: "token_list (classList a)"
proof (cases "class_attr a")
  case None
  then show ?thesis by (simp add: classList_def token_list_def)
next
  case (Some s)
  have "list_all token (split_tokens [] s)" by (rule split_tokens_token) simp
  then have "list_all token (ordered_set [] (split_tokens [] s))"
    by (simp add: list_all_iff ordered_set_set)
  then show ?thesis using Some by (simp add: classList_def token_list_def ordered_set_distinct)
qed

lemma split_tokens_word:
  "\<not> list_ex is_ascii_space w \<Longrightarrow> split_tokens cur (w @ s) = split_tokens (cur @ w) s"
  by (induction w arbitrary: cur) simp_all

lemma is_ascii_space_space: "is_ascii_space CHR '' ''"
  by (simp add: is_ascii_space_def code_unit_def)

lemma split_tokens_serialize: "list_all token ts \<Longrightarrow> split_tokens [] (serialize ts) = ts"
proof (induction ts rule: serialize.induct)
  case 1
  show ?case by simp
next
  case (2 t)
  then have t: "t \<noteq> []" "\<not> list_ex is_ascii_space t" by (simp_all add: token_def)
  from split_tokens_word [OF t(2), of "[]" "[]"] t(1) show ?case by simp
next
  case (3 t u ts)
  then have t: "t \<noteq> []" "\<not> list_ex is_ascii_space t" by (simp_all add: token_def)
  have "split_tokens [] (t @ CHR '' '' # serialize (u # ts)) = t # split_tokens [] (serialize (u # ts))"
    using t by (simp add: split_tokens_word is_ascii_space_space)
  with 3 show ?case by simp
qed

lemma classList_serialize:
  "token_list ts \<Longrightarrow> class_attr a = Some (serialize ts) \<Longrightarrow> classList a = ts"
  by (simp add: classList_def token_list_def split_tokens_serialize ordered_set_id)

lemma classList_update: "token_list ts \<Longrightarrow> classList (update_classList ts a) = ts"
  by (auto simp: update_classList_def classList_serialize) (simp add: classList_def)

lemma classList_remove_tokens:
  "classList (classList_remove t a) = filter (\<lambda>u. u \<noteq> t) (classList a)"
proof -
  from token_list_classList [of a] have "token_list (filter (\<lambda>u. u \<noteq> t) (classList a))"
    by (simp add: token_list_def list_all_iff)
  then show ?thesis unfolding classList_remove_def by (rule classList_update)
qed

lemma not_contains_remove: "\<not> classList_contains t (classList_remove t a)"
  by (simp add: classList_contains_def classList_remove_tokens)

lemma contains_remove_other:
  "u \<noteq> t \<Longrightarrow> classList_contains u (classList_remove t a) = classList_contains u a"
  by (simp add: classList_contains_def classList_remove_tokens)

lemma classList_remove_idem: "classList_remove t (classList_remove t a) = classList_remove t a"
proof -
  let ?ts = "filter (\<lambda>u. u \<noteq> t) (classList a)"
  have "classList_remove t (classList_remove t a) = update_classList ?ts (update_classList ?ts a)"
    by (simp add: classList_remove_def [of t "classList_remove t a"] classList_remove_tokens)
       (simp add: classList_remove_def)
  also have "\<dots> = update_classList ?ts a"
    by (simp add: update_classList_def)
  finally show ?thesis by (simp add: classList_remove_def)
qed

lemma classList_add_new:
  "\<not> classList_contains t a \<Longrightarrow>
   classList_add t a = a\<lparr>class_attr := Some (serialize (classList a @ [t]))\<rparr>"
  by (simp add: classList_add_def classList_contains_def update_classList_def)

lemma token_list_snoc:
  "token t \<Longrightarrow> \<not> classList_contains t a \<Longrightarrow> token_list (classList a @ [t])"
  using token_list_classList [of a] by (simp add: token_list_def classList_contains_def)

lemma classList_added:
  assumes "token t" "\<not> classList_contains t a"
    and "class_attr b = Some (serialize (classList a @ [t]))"
  shows "classList b = classList a @ [t]"
  using token_list_snoc [OF assms(1,2)] assms(3) by (rule classList_serialize)

lemma classList_remove_added:
  assumes "token t" "\<not> classList_contains t a"
  shows "classList_remove t (b\<lparr>class_attr := Some (serialize (classList a @ [t]))\<rparr>) =
         b\<lparr>class_attr := Some (serialize (classList a))\<rparr>"
proof -
  let ?b = "b\<lparr>class_attr := Some (serialize (classList a @ [t]))\<rparr>"
  have "classList ?b = classList a @ [t]" by (rule classList_added [OF assms]) simp
  moreover have "filter (\<lambda>u. u \<noteq> t) (classList a @ [t]) = classList a"
    using assms(2) by (auto simp: filter_id_conv classList_contains_def)
  ultimately show ?thesis by (simp add: classList_remove_def update_classList_def)
qed

lemma token_BLURRED: "token BLURRED"
  by (simp add: token_def BLURRED_def PREFIX_def is_ascii_space_def code_unit_def)

lemma token_OVERLAY: "token OVERLAY"
  by (simp add: token_def OVERLAY_def PREFIX_def is_ascii_space_def code_unit_def)

lemma token_BADGE: "token BADGE"
  by (simp add: token_def BADGE_def PREFIX_def is_ascii_space_def code_unit_def)

lemma classList_single: "token t \<Longrightarrow> class_attr a = Some t \<Longrightarrow> classList a = [t]"
  using classList_serialize [of "[t]" a] by (simp add: token_list_def)

section \<open>Matches of a selector and updates at a path\<close>

lemma all_below_iff:
  "p \<in> set (all_below sel anc k cs) \<longleftrightarrow>
   (\<exists>j q. j < length cs \<and> p = (k + j) # q \<and> q \<in> set (all_in sel anc (cs ! j)))"
proof (induction cs arbitrary: k)
  case Nil
  show ?case by simp
next
  case (Cons c cs)
  show ?case (is "?L \<longleftrightarrow> ?R")
  proof
    assume ?L
    then consider q where "p = k # q" "q \<in> set (all_in sel anc c)"
      | "p \<in> set (all_below sel anc (Suc k) cs)" by auto
    then show ?R
    proof cases
      case 1
      then have "0 < length (c # cs) \<and> p = (k + 0) # q \<and> q \<in> set (all_in sel anc ((c # cs) ! 0))"
        by simp
      then show ?thesis by blast
    next
      case 2
      then obtain j q where "j < length cs" "p = (Suc k + j) # q" "q \<in> set (all_in sel anc (cs ! j))"
        using Cons.IH by blast
      then have "Suc j < length (c # cs) \<and> p = (k + Suc j) # q \<and>
          q \<in> set (all_in sel anc ((c # cs) ! Suc j))" by simp
      then show ?thesis by blast
    qed
  next
    assume ?R
    then obtain j q where j: "j < length (c # cs)" "p = (k + j) # q"
      "q \<in> set (all_in sel anc ((c # cs) ! j))" by blast
    show ?L
    proof (cases j)
      case 0
      with j show ?thesis by simp
    next
      case (Suc j')
      with j have "j' < length cs \<and> p = (Suc k + j') # q \<and> q \<in> set (all_in sel anc (cs ! j'))"
        by simp
      then have "p \<in> set (all_below sel anc (Suc k) cs)" using Cons.IH by blast
      then show ?thesis by simp
    qed
  qed
qed

lemma all_in_Element_iff:
  "p \<in> set (all_in sel anc (Element a cs)) \<longleftrightarrow>
   (p = [] \<and> sel anc a) \<or>
   (\<exists>j q. j < length cs \<and> p = j # q \<and> q \<in> set (all_in sel (a # anc) (cs ! j)))"
  by (auto simp: all_below_iff)

lemma all_below_nonempty: "[] \<notin> set (all_below sel anc k cs)"
  by (simp add: all_below_iff)

lemma all_below_append:
  "all_below sel anc k (xs @ ys) = all_below sel anc k xs @ all_below sel anc (k + length xs) ys"
  by (induction xs arbitrary: k) simp_all

lemma all_below_empty:
  "(\<And>c. c \<in> set cs \<Longrightarrow> all_in sel anc c = []) \<Longrightarrow> all_below sel anc k cs = []"
  by (induction cs arbitrary: k) simp_all

lemma all_below_empty_iff:
  "all_below sel anc k cs = [] \<longleftrightarrow> (\<forall>c \<in> set cs. all_in sel anc c = [])"
  by (induction cs arbitrary: k) auto

lemma all_below_cong:
  "(\<And>c. c \<in> set cs \<Longrightarrow> all_in sel anc c = all_in sel anc' c) \<Longrightarrow>
   all_below sel anc k cs = all_below sel anc' k cs"
  by (induction cs arbitrary: k) simp_all

lemma plain_by_class: "plain (by_class c)"
  by (simp add: plain_def by_class_def)

lemma plain_THUMBNAIL: "plain THUMBNAIL"
  by (simp add: plain_def THUMBNAIL_def)

lemma all_in_plain:
  assumes "plain sel"
  shows "all_in sel anc n = all_in sel anc' n"
proof (induction n arbitrary: anc anc')
  case (Element a cs)
  have "sel anc a = sel anc' a" using assms by (simp add: plain_def)
  moreover have "all_below sel (a # anc) 0 cs = all_below sel (a # anc') 0 cs"
    by (rule all_below_cong) (rule Element.IH)
  ultimately show ?case by simp
qed simp_all

lemma all_below_plain:
  "plain sel \<Longrightarrow> all_below sel anc k cs = all_below sel anc' k cs"
  by (rule all_below_cong) (rule all_in_plain)

lemma first_hd:
  "first_in sel anc n = (case all_in sel anc n of [] \<Rightarrow> None | p # ps \<Rightarrow> Some p)"
  "first_below sel anc k cs = (case all_below sel anc k cs of [] \<Rightarrow> None | p # ps \<Rightarrow> Some p)"
  by (induction sel anc n and sel anc k cs rule: first_in_first_below.induct)
    (auto split: list.splits option.splits)

lemma first_below_plain:
  "plain sel \<Longrightarrow> first_below sel anc k cs = first_below sel anc' k cs"
  by (simp add: first_hd all_below_plain [of sel anc k cs anc'])

lemma first_below_valid:
  assumes "first_below sel anc k cs = Some p"
  shows "p \<in> set (all_below sel anc k cs)"
  using assms by (simp add: first_hd split: list.splits)

lemma all_in_valid:
  "p \<in> set (all_in sel anc n) \<Longrightarrow>
   \<exists>a cs. node_at p n = Some (Element a cs) \<and> sel (ancestors_at p anc n) a"
proof (induction p arbitrary: anc n)
  case Nil
  then show ?case by (cases n) (auto simp: all_below_iff split: if_splits)
next
  case (Cons i q)
  then obtain a cs where n: "n = Element a cs" by (cases n) auto
  with Cons.prems have "i < length cs" "q \<in> set (all_in sel (a # anc) (cs ! i))"
    by (auto simp: all_below_iff split: if_splits)
  with Cons.IH [of "a # anc" "cs ! i"] n show ?case by simp
qed

lemma all_in_at:
  "node_at p d = Some n \<Longrightarrow>
   r \<in> set (all_in sel (ancestors_at p anc d) n) \<longleftrightarrow> p @ r \<in> set (all_in sel anc d)"
proof (induction p arbitrary: anc d)
  case Nil
  then show ?case by simp
next
  case (Cons i q)
  then obtain a cs where d: "d = Element a cs" and i: "i < length cs"
    and q: "node_at q (cs ! i) = Some n"
    by (cases d) (auto split: if_splits)
  from Cons.IH [OF q, of "a # anc"] i show ?case
    unfolding d by (auto simp: all_below_iff)
qed

lemma node_at_butlast:
  "node_at p n = Some m \<Longrightarrow> p \<noteq> [] \<Longrightarrow> \<exists>a cs. node_at (butlast p) n = Some (Element a cs)"
proof (induction p arbitrary: n)
  case Nil
  then show ?case by simp
next
  case (Cons i q)
  then obtain a cs where n: "n = Element a cs" and i: "i < length cs"
    by (cases n) (auto split: if_splits)
  show ?case
  proof (cases "q = []")
    case True
    with n show ?thesis by simp
  next
    case False
    with Cons.IH [of "cs ! i"] Cons.prems n i show ?thesis by simp
  qed
qed

lemma apply_at_id:
  "(\<And>n. node_at p d = Some n \<Longrightarrow> f (ancestors_at p anc d) n = n) \<Longrightarrow> apply_at p f anc d = d"
proof (induction p arbitrary: anc d)
  case Nil
  then show ?case by simp
next
  case (Cons i q)
  show ?case
  proof (cases d)
    case (Element a cs)
    show ?thesis
    proof (cases "i < length cs")
      case True
      have "apply_at q f (a # anc) (cs ! i) = cs ! i"
        using Cons.prems True Element by (intro Cons.IH) simp
      with True Element show ?thesis by simp
    next
      case False
      with Element show ?thesis by simp
    qed
  qed simp_all
qed

lemma forEach_Nil: "forEach [] f anc d = d"
  by (simp add: forEach_def)

lemma forEach_Cons: "forEach (p # ps) f anc d = forEach ps f anc (apply_at p f anc d)"
  by (simp add: forEach_def)

lemma forEach_append:
  "forEach (ps @ qs) f anc d = forEach qs f anc (forEach ps f anc d)"
  by (simp add: forEach_def)

lemma forEach_id:
  "(\<And>p n anc'. f anc' n \<noteq> n \<Longrightarrow> node_at p d = Some n \<Longrightarrow> anc' \<noteq> ancestors_at p anc d) \<Longrightarrow>
   forEach ps f anc d = d"
proof (induction ps)
  case Nil
  show ?case by (simp add: forEach_Nil)
next
  case (Cons p ps)
  have "apply_at p f anc d = d"
    by (rule apply_at_id) (use Cons.prems in blast)
  with Cons show ?case by (simp add: forEach_Cons)
qed

lemma forEach_root:
  "[] \<notin> set ps \<Longrightarrow> \<exists>cs'. forEach ps f anc (Element a cs) = Element a cs' \<and> length cs' = length cs"
proof (induction ps arbitrary: cs)
  case Nil
  show ?case by (simp add: forEach_Nil)
next
  case (Cons p ps)
  then obtain i q where p: "p = i # q" by (cases p) auto
  obtain cs1 where 1: "apply_at p f anc (Element a cs) = Element a cs1" "length cs1 = length cs"
    unfolding p by (cases "i < length cs") auto
  from Cons.IH [of cs1] Cons.prems obtain cs' where
    "forEach ps f anc (Element a cs1) = Element a cs'" "length cs' = length cs1" by auto
  with 1 show ?case by (simp add: forEach_Cons)
qed

lemma all_in_removes_apply_at:
  assumes f: "\<And>anc n. set (all_in sel anc (f anc n)) \<subseteq> set (all_in sel anc n) - R"
  shows "set (all_in sel anc (apply_at p f anc d)) \<subseteq> set (all_in sel anc d) - (@) p ` R"
proof (induction p arbitrary: anc d)
  case Nil
  show ?case using f [of anc d] by (simp add: image_def)
next
  case (Cons i p)
  show ?case
  proof (cases d)
    case (Element a cs)
    show ?thesis
    proof (cases "i < length cs")
      case True
      let ?x = "apply_at p f (a # anc) (cs ! i)"
      have IH: "set (all_in sel (a # anc) ?x) \<subseteq> set (all_in sel (a # anc) (cs ! i)) - (@) p ` R"
        by (rule Cons.IH)
      show ?thesis
      proof
        fix r assume "r \<in> set (all_in sel anc (apply_at (i # p) f anc d))"
        then have r: "r \<in> set (all_in sel anc (Element a (cs[i := ?x])))"
          using True Element by simp
        then consider "r = []" "sel anc a"
          | j q where "j < length cs" "r = j # q" "q \<in> set (all_in sel (a # anc) (cs[i := ?x] ! j))"
          by (auto simp: all_below_iff)
        then show "r \<in> set (all_in sel anc d) - (@) (i # p) ` R"
        proof cases
          case 1
          then show ?thesis using Element by auto
        next
          case 2
          show ?thesis
          proof (cases "j = i")
            case True
            with 2 IH \<open>i < length cs\<close> have "q \<in> set (all_in sel (a # anc) (cs ! i))" "q \<notin> (@) p ` R"
              by auto
            with 2 True show ?thesis unfolding Element by (auto simp: all_below_iff)
          next
            case False
            with 2 show ?thesis unfolding Element by (auto simp: all_below_iff)
          qed
        qed
      qed
    next
      case False
      then have "set (all_in sel anc (Element a cs)) \<inter> (@) (i # p) ` R = {}"
        by (auto simp: all_below_iff)
      with False Element show ?thesis by auto
    qed
  qed simp_all
qed

lemma all_in_removes_forEach:
  assumes f: "\<And>anc n. set (all_in sel anc (f anc n)) \<subseteq> set (all_in sel anc n) - R"
  shows "set (all_in sel anc (forEach ps f anc d))
           \<subseteq> set (all_in sel anc d) - {p @ r | p r. p \<in> set ps \<and> r \<in> R}"
proof (induction ps arbitrary: d)
  case Nil
  show ?case by (simp add: forEach_Nil)
next
  case (Cons p ps)
  have "set (all_in sel anc (forEach ps f anc (apply_at p f anc d)))
      \<subseteq> set (all_in sel anc (apply_at p f anc d)) - {p @ r | p r. p \<in> set ps \<and> r \<in> R}"
    by (rule Cons.IH)
  moreover have "set (all_in sel anc (apply_at p f anc d)) \<subseteq> set (all_in sel anc d) - (@) p ` R"
    by (rule all_in_removes_apply_at) (rule f)
  ultimately show ?case
    unfolding forEach_Cons by auto
qed

lemma all_in_shrink_forEach:
  assumes f: "\<And>anc n. set (all_in sel anc (f anc n)) \<subseteq> set (all_in sel anc n) - {[]}"
  shows "set (all_in sel anc (forEach ps f anc d)) \<subseteq> set (all_in sel anc d) - set ps"
  using all_in_removes_forEach [of sel f "{[]}" anc ps d, OF f] by auto

lemma none_below_anywhere:
  "querySelectorAll sel anc d = [] \<Longrightarrow> node_at p d = Some n \<Longrightarrow>
   querySelector sel (ancestors_at p anc d) n = None"
proof (induction p arbitrary: anc d)
  case Nil
  then show ?case by (cases d) (auto simp: first_hd)
next
  case (Cons i q)
  then obtain a cs where d: "d = Element a cs" and i: "i < length cs"
    by (cases d) (auto split: if_splits)
  have "all_in sel (a # anc) (cs ! i) = []"
  proof (rule ccontr)
    assume "all_in sel (a # anc) (cs ! i) \<noteq> []"
    then obtain r where "r \<in> set (all_in sel (a # anc) (cs ! i))"
      by (cases "all_in sel (a # anc) (cs ! i)") auto
    with i have "i # r \<in> set (all_below sel (a # anc) 0 cs)"
      by (auto simp: all_below_iff)
    with Cons.prems(1) d show False by simp
  qed
  then have "querySelectorAll sel (a # anc) (cs ! i) = []"
    by (cases "cs ! i") (simp_all split: if_splits)
  with Cons.IH [of "a # anc" "cs ! i"] Cons.prems(2) d i show ?case by simp
qed

section \<open>Clearing an item and the document\<close>

lemma remove_first_overlay_forEach:
  assumes "querySelectorAll (by_class OVERLAY) anc d = []"
  shows "forEach ps remove_first_overlay anc d = d"
proof (rule forEach_id)
  fix p n anc'
  assume neq: "remove_first_overlay anc' n \<noteq> n" and n: "node_at p d = Some n"
  show "anc' \<noteq> ancestors_at p anc d"
  proof
    assume "anc' = ancestors_at p anc d"
    with none_below_anywhere [OF assms n] have "remove_first_overlay anc' n = n"
      by (simp add: remove_first_overlay_def)
    with neq show False by simp
  qed
qed

text \<open>What \<open>markRelevant\<close> leaves: the class is gone and no overlay is left below.\<close>

lemma markRelevant_Element:
  fixes a cs
  defines "a' \<equiv> classList_remove BLURRED a"
  shows "\<exists>cs'. markRelevant (Element a cs) = Element a' cs' \<and> length cs' = length cs \<and>
           forEach (all_below (by_class OVERLAY) [a'] 0 cs) remove [] (Element a' cs) = Element a' cs' \<and>
           all_below (by_class OVERLAY) [a'] 0 cs' = []"
proof -
  let ?ov = "by_class OVERLAY"
  let ?ps = "all_below ?ov [a'] 0 cs"
  let ?v0 = "Element a' cs"
  obtain cs' where v1: "forEach ?ps remove [] ?v0 = Element a' cs'" and len: "length cs' = length cs"
    using forEach_root [OF all_below_nonempty] by blast
  have "set (all_in ?ov [] (forEach ?ps remove [] ?v0)) \<subseteq> set (all_in ?ov [] ?v0) - set ?ps"
    by (rule all_in_shrink_forEach) (simp add: remove_def)
  then have "set (all_below ?ov [a'] 0 cs') \<subseteq> {[]}"
    unfolding v1 by auto
  then have none: "all_below ?ov [a'] 0 cs' = []"
    using all_below_nonempty [of ?ov "[a']" 0 cs'] by (cases "all_below ?ov [a'] 0 cs'") auto
  then have "querySelectorAll ?ov [] (Element a' cs') = []" by simp
  then have "forEach (querySelectorAll POSITIONED [] (Element a' cs')) remove_first_overlay []
      (Element a' cs') = Element a' cs'"
    by (rule remove_first_overlay_forEach)
  then have "markRelevant (Element a cs) = Element a' cs'"
    using v1 by (simp add: Let_def a'_def)
  with v1 len none show ?thesis by blast
qed

lemma markRelevant_clean:
  "is_element x \<Longrightarrow> unmarked (markRelevant x)"
proof -
  assume "is_element x"
  then obtain a cs where x: "x = Element a cs" by (cases x) auto
  from markRelevant_Element [of a cs] obtain cs' where
    "markRelevant (Element a cs) =
       Element (classList_remove BLURRED a) cs'"
    "all_below (by_class OVERLAY) [classList_remove BLURRED a] 0 cs' = []"
    by blast
  then show ?thesis
    unfolding x by (simp add: unmarked_def badges_def not_contains_remove)
qed

lemma markRelevant_zero: "\<not> is_marked (markRelevant n) \<and> badges (markRelevant n) = 0"
proof (cases "is_element n")
  case True
  from markRelevant_clean [OF this] show ?thesis by (simp add: unmarked_def)
next
  case False
  then show ?thesis by (cases n) (simp_all add: badges_def)
qed

lemma markRelevant_idem: "markRelevant (markRelevant n) = markRelevant n"
proof (cases n)
  case (Element a cs)
  let ?a' = "classList_remove BLURRED a"
  from markRelevant_Element [of a cs] obtain cs' where
    1: "markRelevant (Element a cs) = Element ?a' cs'"
    and 2: "all_below (by_class OVERLAY) [?a'] 0 cs' = []"
    by blast
  have a'': "classList_remove BLURRED ?a' = ?a'" by (rule classList_remove_idem)
  from markRelevant_Element [of ?a' cs'] obtain cs'' where
    "markRelevant (Element ?a' cs') = Element ?a' cs''"
    "forEach (all_below (by_class OVERLAY) [?a'] 0 cs') remove [] (Element ?a' cs') = Element ?a' cs''"
    unfolding a'' by blast
  with 2 have "markRelevant (Element ?a' cs') = Element ?a' cs'"
    by (simp add: forEach_Nil)
  with 1 Element show ?thesis by simp
qed simp_all

lemma markRelevant_blurred_shrink:
  "set (all_in (by_class BLURRED) anc (markRelevant n))
     \<subseteq> set (all_in (by_class BLURRED) anc n) - {[]}"
proof (cases n)
  case (Element a cs)
  let ?bl = "by_class BLURRED"
  define a' where "a' = classList_remove BLURRED a"
  let ?ps = "all_below (by_class OVERLAY) [a'] 0 cs"
  from markRelevant_Element [of a cs] have mr: "markRelevant n = forEach ?ps remove [] (Element a' cs)"
    unfolding Element a'_def by auto
  have "set (all_in ?bl [] (forEach ?ps remove [] (Element a' cs)))
      \<subseteq> set (all_in ?bl [] (Element a' cs)) - set ?ps"
    by (rule all_in_shrink_forEach) (simp add: remove_def)
  then have A: "set (all_in ?bl [] (markRelevant n)) \<subseteq> set (all_in ?bl [] (Element a' cs))"
    unfolding mr by blast
  have B: "all_in ?bl [] (Element a' cs) = all_below ?bl [a'] 0 cs"
    by (simp add: a'_def by_class_def not_contains_remove)
  have C: "all_below ?bl [a'] 0 cs = all_below ?bl (a # anc) 0 cs"
    by (rule all_below_plain [OF plain_by_class])
  have D: "all_in ?bl anc (markRelevant n) = all_in ?bl [] (markRelevant n)"
    by (rule all_in_plain [OF plain_by_class])
  have "set (all_in ?bl anc (markRelevant n)) \<subseteq> set (all_below ?bl (a # anc) 0 cs)"
    using A unfolding B C D .
  then show ?thesis
    unfolding Element using all_below_nonempty [of ?bl "a # anc" 0 cs] by auto
qed simp_all

lemma clearAllFilters_none:
  "document_querySelectorAll (by_class BLURRED) (clearAllFilters doc) = []"
proof -
  let ?bl = "by_class BLURRED"
  have "set (all_in ?bl [] (forEach (all_in ?bl [] doc) (\<lambda>anc el. markRelevant el) [] doc))
      \<subseteq> set (all_in ?bl [] doc) - set (all_in ?bl [] doc)"
    by (rule all_in_shrink_forEach) (rule markRelevant_blurred_shrink)
  then show ?thesis
    by (simp add: clearAllFilters_def document_querySelectorAll_def)
qed

lemma OVERLAY_not_BLURRED: "OVERLAY \<noteq> BLURRED"
  by (simp add: OVERLAY_def BLURRED_def)

lemma markRelevant_overlays:
  "set (all_in (by_class OVERLAY) anc (markRelevant n))
     \<subseteq> set (all_in (by_class OVERLAY) anc n) - {r. r \<noteq> []}"
proof (cases n)
  case (Element a cs)
  let ?a' = "classList_remove BLURRED a"
  from markRelevant_Element [of a cs] obtain cs' where
    1: "markRelevant (Element a cs) = Element ?a' cs'"
    and 2: "all_below (by_class OVERLAY) [?a'] 0 cs' = []"
    by blast
  have "all_below (by_class OVERLAY) (?a' # anc) 0 cs' = all_below (by_class OVERLAY) [?a'] 0 cs'"
    by (rule all_below_plain [OF plain_by_class])
  with 2 have "all_in (by_class OVERLAY) anc (Element ?a' cs') =
      (if by_class OVERLAY anc ?a' then [[]] else [])" by simp
  moreover have "by_class OVERLAY anc ?a' \<longleftrightarrow> by_class OVERLAY anc a"
    by (simp add: by_class_def contains_remove_other OVERLAY_not_BLURRED)
  ultimately show ?thesis unfolding Element 1 by auto
qed simp_all

lemma clearAllFilters_overlays:
  "set (all_in (by_class OVERLAY) [] (clearAllFilters doc))
     \<subseteq> set (all_in (by_class OVERLAY) [] doc)
        - {p @ r | p r. p \<in> set (marked_elements doc) \<and> r \<in> {r. r \<noteq> []}}"
  unfolding clearAllFilters_def marked_elements_def
  by (rule all_in_removes_forEach) (rule markRelevant_overlays)

text \<open>After the full clear, what is left of an element that was marked has neither the
  mark nor a badge.\<close>

lemma clearAllFilters_complete:
  assumes p: "p \<in> set (marked_elements doc)" and n: "node_at p (clearAllFilters doc) = Some n"
  shows "\<not> is_marked n \<and> badges n = 0"
proof
  show "\<not> is_marked n"
  proof
    assume "is_marked n"
    then obtain a cs where e: "n = Element a cs" "classList_contains BLURRED a"
      by (cases n) auto
    then have "[] \<in> set (all_in (by_class BLURRED) (ancestors_at p [] (clearAllFilters doc)) n)"
      by (simp add: by_class_def)
    with all_in_at [OF n] have "p @ [] \<in> set (all_in (by_class BLURRED) [] (clearAllFilters doc))"
      by blast
    with clearAllFilters_none [of doc] show False
      by (simp add: document_querySelectorAll_def)
  qed
  show "badges n = 0"
  proof (rule ccontr)
    assume "badges n \<noteq> 0"
    then obtain a cs where e: "n = Element a cs"
      and ne: "all_below (by_class OVERLAY) [a] 0 cs \<noteq> []"
      by (cases n) (auto simp: badges_def)
    then obtain r where r: "r \<in> set (all_below (by_class OVERLAY) [a] 0 cs)"
      by (cases "all_below (by_class OVERLAY) [a] 0 cs") auto
    let ?anc = "ancestors_at p [] (clearAllFilters doc)"
    from r have "r \<noteq> []" using all_below_nonempty [of "by_class OVERLAY" "[a]" 0 cs] by auto
    have "all_below (by_class OVERLAY) (a # ?anc) 0 cs = all_below (by_class OVERLAY) [a] 0 cs"
      by (rule all_below_plain [OF plain_by_class])
    with r have "r \<in> set (all_in (by_class OVERLAY) ?anc n)" unfolding e by simp
    with all_in_at [OF n] have "p @ r \<in> set (all_in (by_class OVERLAY) [] (clearAllFilters doc))"
      by blast
    with clearAllFilters_overlays [of doc] p \<open>r \<noteq> []\<close> show False by blast
  qed
qed

section \<open>Marking an item\<close>

lemma apply_at_attach_anc:
  "apply_at p attach_overlay anc n = apply_at p attach_overlay anc' n"
proof (induction p arbitrary: anc anc' n)
  case Nil
  show ?case by (cases n) simp_all
next
  case (Cons i q)
  show ?case
  proof (cases n)
    case (Element a cs)
    with Cons [of "a # anc" "cs ! i" "a # anc'"] show ?thesis by simp
  qed simp_all
qed

lemma apply_at_attach_root:
  "\<exists>a1 cs1. apply_at p attach_overlay anc (Element a cs) = Element a1 cs1 \<and>
     class_attr a1 = class_attr a \<and>
     (\<forall>cl. apply_at p attach_overlay anc' (Element (a\<lparr>class_attr := cl\<rparr>) cs) =
            Element (a1\<lparr>class_attr := cl\<rparr>) cs1)"
proof (cases p)
  case Nil
  then show ?thesis by simp
next
  case (Cons i q)
  have "apply_at q attach_overlay (a\<lparr>class_attr := cl\<rparr> # anc') (cs ! i) =
        apply_at q attach_overlay (a # anc) (cs ! i)" for cl
    by (rule apply_at_attach_anc)
  then show ?thesis unfolding Cons by simp
qed

lemma overlay_host_valid:
  "\<exists>a0 cs0. node_at (overlay_host (Element a cs)) (Element a cs) = Some (Element a0 cs0)"
proof (cases "querySelector THUMBNAIL [] (Element a cs)")
  case None
  then show ?thesis by (simp add: overlay_host_def)
next
  case (Some p)
  then have "p \<in> set (all_in THUMBNAIL [] (Element a cs))" "p \<noteq> []"
    using first_below_valid [of THUMBNAIL "[a]" 0 cs p] all_below_nonempty [of THUMBNAIL "[a]" 0 cs]
    by auto
  then obtain m where "node_at p (Element a cs) = Some m" "p \<noteq> []"
    using all_in_valid by blast
  from node_at_butlast [OF this] Some show ?thesis by (simp add: overlay_host_def)
qed

lemma OVERLAY_not_BADGE: "OVERLAY \<noteq> BADGE"
  by (simp add: OVERLAY_def BADGE_def)

lemma all_in_overlay: "all_in (by_class OVERLAY) anc overlay = [[]]"
proof -
  have "classList ((createElement ''div'')\<lparr>class_attr := Some OVERLAY\<rparr>) = [OVERLAY]"
    "classList ((createElement ''div'')\<lparr>class_attr := Some BADGE\<rparr>) = [BADGE]"
    by (simp_all add: classList_single token_OVERLAY token_BADGE)
  then show ?thesis
    by (simp add: overlay_def by_class_def classList_contains_def OVERLAY_not_BADGE)
qed

lemma length_all_below:
  "length (all_below sel anc k cs) = sum_list (map (\<lambda>c. length (all_in sel anc c)) cs)"
  by (induction cs arbitrary: k) simp_all

lemma length_all_below_update:
  assumes "i < length cs" and "length (all_in sel anc x) = Suc (length (all_in sel anc (cs ! i)))"
  shows "length (all_below sel anc k (cs[i := x])) = Suc (length (all_below sel anc k cs))"
proof -
  have 1: "cs[i := x] = take i cs @ x # drop (Suc i) cs"
    using assms(1) by (rule upd_conv_take_nth_drop)
  have 2: "cs = take i cs @ cs ! i # drop (Suc i) cs"
    using assms(1) by (rule id_take_nth_drop)
  have "length (all_below sel anc k (take i cs @ x # drop (Suc i) cs)) =
      Suc (length (all_below sel anc k (take i cs @ cs ! i # drop (Suc i) cs)))"
    using assms(2) by (simp add: length_all_below)
  with 1 2 show ?thesis by simp
qed

lemma attach_overlay_count:
  assumes "node_at p d = Some (Element a0 cs0)"
  shows "length (all_in (by_class OVERLAY) anc (apply_at p attach_overlay anc d)) =
         Suc (length (all_in (by_class OVERLAY) anc d))"
  using assms
proof (induction p arbitrary: anc d)
  case Nil
  then have d: "d = Element a0 cs0" by simp
  let ?a = "a0\<lparr>style_position := ''relative''\<rparr>"
  have "all_below (by_class OVERLAY) (?a # anc) 0 cs0 = all_below (by_class OVERLAY) (a0 # anc) 0 cs0"
    by (rule all_below_plain [OF plain_by_class])
  moreover have "by_class OVERLAY anc ?a = by_class OVERLAY anc a0"
    by (simp add: by_class_def classList_contains_def classList_def)
  ultimately show ?case
    unfolding d by (simp add: all_below_append all_in_overlay)
next
  case (Cons i q)
  then obtain a cs where d: "d = Element a cs" and i: "i < length cs"
    and q: "node_at q (cs ! i) = Some (Element a0 cs0)"
    by (cases d) (auto split: if_splits)
  from Cons.IH [OF q, of "a # anc"] i
  have "length (all_below (by_class OVERLAY) (a # anc) 0 (cs[i := apply_at q attach_overlay (a # anc) (cs ! i)])) =
      Suc (length (all_below (by_class OVERLAY) (a # anc) 0 cs))"
    by (intro length_all_below_update)
  with i show ?case unfolding d by simp
qed

lemma markIrrelevant_unmarked:
  assumes "\<not> classList_contains BLURRED a"
  shows "markIrrelevant (Element a cs) =
    apply_at (overlay_host (Element a cs)) attach_overlay []
      (Element (a\<lparr>class_attr := Some (serialize (classList a @ [BLURRED]))\<rparr>) cs)"
proof -
  let ?a = "a\<lparr>class_attr := Some (serialize (classList a @ [BLURRED]))\<rparr>"
  have "first_below THUMBNAIL [?a] 0 cs = first_below THUMBNAIL [a] 0 cs"
    by (rule first_below_plain [OF plain_THUMBNAIL])
  with assms show ?thesis
    by (simp add: overlay_host_def classList_add_new split: option.splits)
qed

text \<open>Marking an unmarked element, in terms of the element with the overlay attached.\<close>

lemma markIrrelevant_shape:
  assumes "\<not> classList_contains BLURRED a"
  shows "\<exists>a1 cs1. apply_at (overlay_host (Element a cs)) attach_overlay [] (Element a cs) = Element a1 cs1 \<and>
           (\<forall>cl. apply_at (overlay_host (Element a cs)) attach_overlay [] (Element (a\<lparr>class_attr := cl\<rparr>) cs) =
              Element (a1\<lparr>class_attr := cl\<rparr>) cs1) \<and>
           markIrrelevant (Element a cs) =
             Element (a1\<lparr>class_attr := Some (serialize (classList a @ [BLURRED]))\<rparr>) cs1"
proof -
  let ?h = "overlay_host (Element a cs)"
  from apply_at_attach_root [of ?h "[]" a cs "[]"]
  obtain a1 cs1 where 1: "apply_at ?h attach_overlay [] (Element a cs) = Element a1 cs1"
    and 3: "\<forall>cl. apply_at ?h attach_overlay [] (Element (a\<lparr>class_attr := cl\<rparr>) cs) =
            Element (a1\<lparr>class_attr := cl\<rparr>) cs1"
    by blast
  from markIrrelevant_unmarked [OF assms, of cs] 3
  have "markIrrelevant (Element a cs) =
      Element (a1\<lparr>class_attr := Some (serialize (classList a @ [BLURRED]))\<rparr>) cs1"
    by simp
  with 1 3 show ?thesis by blast
qed

lemma contains_added:
  assumes "\<not> classList_contains BLURRED a"
  shows "classList_contains BLURRED (b\<lparr>class_attr := Some (serialize (classList a @ [BLURRED]))\<rparr>)"
proof -
  have "classList (b\<lparr>class_attr := Some (serialize (classList a @ [BLURRED]))\<rparr>) =
      classList a @ [BLURRED]"
    by (rule classList_added [OF token_BLURRED assms]) simp
  then show ?thesis by (simp add: classList_contains_def)
qed

lemma markIrrelevant_idem: "markIrrelevant (markIrrelevant n) = markIrrelevant n"
proof (cases n)
  case (Element a cs)
  show ?thesis
  proof (cases "classList_contains BLURRED a")
    case True
    with Element show ?thesis by simp
  next
    case False
    from markIrrelevant_shape [OF False, of cs] obtain a1 cs1 where
      "markIrrelevant (Element a cs) =
         Element (a1\<lparr>class_attr := Some (serialize (classList a @ [BLURRED]))\<rparr>) cs1"
      by blast
    then show ?thesis unfolding Element using contains_added [OF False, of a1] by simp
  qed
qed simp_all

text \<open>Marking an element that has not the mark adds the mark and one badge.\<close>

lemma markIrrelevant_badges:
  assumes "is_element x" and "\<not> is_marked x"
  shows "is_marked (markIrrelevant x) \<and> badges (markIrrelevant x) = Suc (badges x)"
proof -
  from assms obtain a cs where x: "x = Element a cs" and nb: "\<not> classList_contains BLURRED a"
    by (cases x) auto
  let ?h = "overlay_host (Element a cs)"
  let ?cl = "Some (serialize (classList a @ [BLURRED]))"
  from markIrrelevant_shape [OF nb, of cs] obtain a1 cs1 where
    1: "apply_at ?h attach_overlay [] (Element a cs) = Element a1 cs1"
    and 3: "markIrrelevant (Element a cs) = Element (a1\<lparr>class_attr := ?cl\<rparr>) cs1"
    by blast
  from overlay_host_valid [of a cs] obtain a0 cs0 where
    h: "node_at ?h (Element a cs) = Some (Element a0 cs0)" by blast
  have root: "by_class OVERLAY [] a1 = by_class OVERLAY [] a"
  proof (cases ?h)
    case Nil
    with 1 show ?thesis by (auto simp: by_class_def classList_contains_def classList_def)
  next
    case (Cons i q)
    with 1 show ?thesis by (auto split: if_splits)
  qed
  from attach_overlay_count [OF h, of "[]"] root
  have "length (all_below (by_class OVERLAY) [a1] 0 cs1) =
      Suc (length (all_below (by_class OVERLAY) [a] 0 cs))"
    unfolding 1 by simp
  moreover have "all_below (by_class OVERLAY) [a1\<lparr>class_attr := ?cl\<rparr>] 0 cs1 =
      all_below (by_class OVERLAY) [a1] 0 cs1"
    by (rule all_below_plain [OF plain_by_class])
  ultimately show ?thesis
    unfolding x 3 using contains_added [OF nb, of a1] by (simp add: badges_def)
qed

lemma markIrrelevant_marked: "is_marked x \<Longrightarrow> markIrrelevant x = x"
  by (cases x) simp_all

lemma is_element_markIrrelevant: "is_element (markIrrelevant n) = is_element n"
proof (cases n)
  case (Element a cs)
  show ?thesis
  proof (cases "classList_contains BLURRED a")
    case True
    with Element show ?thesis by simp
  next
    case False
    from markIrrelevant_shape [OF False, of cs] Element show ?thesis by auto
  qed
qed simp_all

text \<open>One badge after \<open>markIrrelevant\<close>: on the tidy elements and on no other.\<close>

lemma markIrrelevant_one:
  assumes "is_element x"
  shows "is_marked (markIrrelevant x) \<and> (badges (markIrrelevant x) = 1 \<longleftrightarrow> tidy x)"
proof (cases "is_marked x")
  case True
  with assms show ?thesis by (simp add: markIrrelevant_marked tidy_def)
next
  case False
  from markIrrelevant_badges [OF assms False] assms False show ?thesis
    by (simp add: tidy_def)
qed

lemma tidy_perform: "tidy x \<Longrightarrow> tidy (perform c x)"
proof (cases c)
  case MarkIrrelevant
  assume t: "tidy x"
  then have "is_element x" by (simp add: tidy_def)
  from markIrrelevant_one [OF this] t MarkIrrelevant show ?thesis
    by (simp add: tidy_def is_element_markIrrelevant)
next
  case MarkRelevant
  assume "tidy x"
  then have "unmarked (markRelevant x)" by (intro markRelevant_clean) (simp add: tidy_def)
  with MarkRelevant show ?thesis by (simp add: tidy_def unmarked_def)
qed

lemma tidy_fold: "tidy x \<Longrightarrow> tidy (fold perform calls x)"
  by (induction calls arbitrary: x) (simp_all add: tidy_perform)

text \<open>
  Claim C5, as amended. Calling \<open>markIrrelevant\<close> twice is calling it once, and so for
  \<open>markRelevant\<close>, on every node; \<open>markRelevant\<close> leaves neither the mark nor a badge.
  \<open>markIrrelevant\<close> leaves every element marked; it leaves exactly one badge below the
  element when the element was tidy before the call (one badge if marked, none if not),
  and only then. Any sequence of calls on a tidy item leaves the item tidy, so with one
  badge at most.
\<close>

theorem annotation_idempotent:
  "markIrrelevant (markIrrelevant n) = markIrrelevant n \<and>
   markRelevant (markRelevant n) = markRelevant n \<and>
   \<not> is_marked (markRelevant n) \<and> badges (markRelevant n) = 0 \<and>
   (is_element item \<longrightarrow>
      is_marked (markIrrelevant item) \<and> (badges (markIrrelevant item) = 1 \<longleftrightarrow> tidy item)) \<and>
   (tidy item \<longrightarrow>
      tidy (fold perform calls item) \<and> badges (fold perform calls item) \<le> 1)"
proof -
  have "badges (fold perform calls item) \<le> 1" if "tidy item"
    using tidy_fold [OF that, of calls] by (simp add: tidy_def)
  then show ?thesis
    using markIrrelevant_idem [of n] markRelevant_idem [of n] markRelevant_zero [of n]
      markIrrelevant_one [of item] tidy_fold [of item calls]
    by blast
qed

theorem annotation_idempotent_witness:
  "tidy sample_video \<and>
   markIrrelevant (markIrrelevant sample_video) = markIrrelevant sample_video \<and>
   markRelevant (markRelevant sample_video) = markRelevant sample_video \<and>
   badges (markRelevant sample_video) = 0 \<and>
   is_marked (markIrrelevant sample_video) \<and> badges (markIrrelevant sample_video) = 1 \<and>
   badges (fold perform [MarkIrrelevant, MarkIrrelevant, MarkRelevant, MarkIrrelevant] sample_video) \<le> 1 \<and>
   is_element (call_at MarkIrrelevant [0] nested_item) \<and>
   \<not> tidy (call_at MarkIrrelevant [0] nested_item) \<and>
   badges (markIrrelevant (call_at MarkIrrelevant [0] nested_item)) \<noteq> 1"
proof -
  let ?calls = "[MarkIrrelevant, MarkIrrelevant, MarkRelevant, MarkIrrelevant]"
  let ?x = "call_at MarkIrrelevant [0] nested_item"
  have t: "tidy sample_video" by code_simp
  then have e: "is_element sample_video" by (simp add: tidy_def)
  have e': "is_element ?x" by code_simp
  have t': "\<not> tidy ?x" by code_simp
  have 1: "markIrrelevant (markIrrelevant sample_video) = markIrrelevant sample_video"
    "markRelevant (markRelevant sample_video) = markRelevant sample_video"
    "badges (markRelevant sample_video) = 0"
    "is_marked (markIrrelevant sample_video)" "badges (markIrrelevant sample_video) = 1"
    "badges (fold perform ?calls sample_video) \<le> 1"
    using annotation_idempotent [where n = sample_video and item = sample_video and calls = ?calls]
      t e by blast+
  have 2: "badges (markIrrelevant ?x) \<noteq> 1"
    using annotation_idempotent [where item = ?x] e' t' by blast
  from t 1 e' t' 2 show ?thesis by (simp only:) simp
qed

text \<open>
  Claim C5 as stated fails where one video element lies inside another. The calls the
  scan makes on the grid item and then on the video element inside it attach both
  overlays to the parent of the thumbnail they share: each of the two items then
  carries two badges. When \<open>markRelevant\<close> on the grid item has removed both, the video
  element inside it is still marked, and \<open>markIrrelevant\<close> on it attaches nothing: it is
  marked with no badge.
\<close>

theorem nested_badges_counterexample:
  "unmarked nested_item \<and> node_at [0] nested_item = Some sample_video \<and> unmarked sample_video \<and>
   badges (call_at MarkIrrelevant [0] (markIrrelevant nested_item)) = 2 \<and>
   map_option badges (node_at [0] (call_at MarkIrrelevant [0] (markIrrelevant nested_item))) = Some 2 \<and>
   marked_elements (scanVideos ''learn rust programming'' True nested_feed) = [[0], [0, 0]] \<and>
   map_option badges (node_at [0] (scanVideos ''learn rust programming'' True nested_feed)) = Some 2 \<and>
   map_option badges (node_at [0, 0] (scanVideos ''learn rust programming'' True nested_feed)) = Some 2 \<and>
   map_option is_marked
     (node_at [0] (markRelevant (call_at MarkIrrelevant [0] (markIrrelevant nested_item)))) = Some True \<and>
   map_option (\<lambda>item. badges (markIrrelevant item))
     (node_at [0] (markRelevant (call_at MarkIrrelevant [0] (markIrrelevant nested_item)))) = Some 0"
  by code_simp

section \<open>Marking and clearing again\<close>

lemma live_Gone_iff: "live x = Gone \<longleftrightarrow> x = Gone"
  by (cases x) simp_all

lemma forEach_child:
  "k < length cs \<Longrightarrow>
   forEach (map ((#) k) ps) f anc (Element a cs) = Element a (cs[k := forEach ps f (a # anc) (cs ! k)])"
proof (induction ps arbitrary: cs)
  case Nil
  show ?case by (simp add: forEach_Nil)
next
  case (Cons p ps)
  from Cons.IH [of "cs[k := apply_at p f (a # anc) (cs ! k)]"] Cons.prems
  show ?case by (simp add: forEach_Cons)
qed

lemma forEach_children:
  "forEach (all_below sel (a # anc) (length cs1) cs2) f anc (Element a (cs1 @ cs2)) =
   Element a (cs1 @ map (\<lambda>c. forEach (all_in sel (a # anc) c) f (a # anc) c) cs2)"
proof (induction cs2 arbitrary: cs1)
  case Nil
  show ?case by (simp add: forEach_Nil)
next
  case (Cons c cs2)
  let ?x = "forEach (all_in sel (a # anc) c) f (a # anc) c"
  have "forEach (map ((#) (length cs1)) (all_in sel (a # anc) c)) f anc (Element a (cs1 @ c # cs2)) =
      Element a ((cs1 @ [?x]) @ cs2)"
    by (simp add: forEach_child)
  moreover from Cons.IH [of "cs1 @ [?x]"]
  have "forEach (all_below sel (a # anc) (Suc (length cs1)) cs2) f anc (Element a ((cs1 @ [?x]) @ cs2)) =
      Element a ((cs1 @ [?x]) @ map (\<lambda>c. forEach (all_in sel (a # anc) c) f (a # anc) c) cs2)"
    by simp
  ultimately show ?case by (simp add: forEach_append)
qed

lemma forEach_Gone: "f anc Gone = Gone \<Longrightarrow> forEach ps f anc Gone = Gone"
proof (induction ps)
  case Nil
  show ?case by (simp add: forEach_Nil)
next
  case (Cons p ps)
  then show ?case by (cases p) (simp_all add: forEach_Cons)
qed

lemma without_overlays_Gone_iff: "without_overlays x = Gone \<longleftrightarrow> x = Gone"
  by (cases x) simp_all

text \<open>Removing every match of the overlay selector, seen in the document.\<close>

lemma live_remove_overlays:
  "live (forEach (all_in (by_class OVERLAY) anc d) remove anc d) =
     (if is_overlay d then Gone else without_overlays d)"
proof (induction d arbitrary: anc)
  case (Text s)
  show ?case by (simp add: forEach_Nil)
next
  case Gone
  show ?case by (simp add: forEach_Nil)
next
  case (Element a cs)
  let ?g = "\<lambda>c. forEach (all_in (by_class OVERLAY) (a # anc) c) remove (a # anc) c"
  show ?case
  proof (cases "classList_contains OVERLAY a")
    case True
    then show ?thesis
      by (simp add: by_class_def forEach_Cons remove_def forEach_Gone)
  next
    case False
    have g: "live (?g c) = (if is_overlay c then Gone else without_overlays c)" if "c \<in> set cs" for c
      using that by (rule Element.IH)
    have keep: "?g c \<noteq> Gone \<longleftrightarrow> c \<noteq> Gone \<and> \<not> is_overlay c" if "c \<in> set cs" for c
      using g [OF that] live_Gone_iff [of "?g c"] without_overlays_Gone_iff [of c]
      by (auto split: if_splits)
    have "filter (\<lambda>c. c \<noteq> Gone) (map ?g cs) = map ?g (filter (\<lambda>c. c \<noteq> Gone \<and> \<not> is_overlay c) cs)"
      using keep by (simp add: filter_map comp_def cong: filter_cong)
    moreover have "map live (map ?g (filter (\<lambda>c. c \<noteq> Gone \<and> \<not> is_overlay c) cs)) =
        map without_overlays (filter (\<lambda>c. c \<noteq> Gone \<and> \<not> is_overlay c) cs)"
      using g by simp
    moreover from forEach_children [of "by_class OVERLAY" a anc "[]" cs remove]
    have "forEach (all_below (by_class OVERLAY) (a # anc) 0 cs) remove anc (Element a cs) =
        Element a (map ?g cs)" by simp
    ultimately show ?thesis using False by (simp add: by_class_def)
  qed
qed

lemma live_remove_below:
  "live (forEach (all_below (by_class OVERLAY) (a # anc) 0 cs) remove anc (Element a cs)) =
     without_overlays (Element a cs)"
proof -
  let ?g = "\<lambda>c. forEach (all_in (by_class OVERLAY) (a # anc) c) remove (a # anc) c"
  have g: "live (?g c) = (if is_overlay c then Gone else without_overlays c)" for c
    by (rule live_remove_overlays)
  have keep: "?g c \<noteq> Gone \<longleftrightarrow> c \<noteq> Gone \<and> \<not> is_overlay c" for c
    using g [of c] live_Gone_iff [of "?g c"] without_overlays_Gone_iff [of c]
    by (auto split: if_splits)
  have "filter (\<lambda>c. c \<noteq> Gone) (map ?g cs) = map ?g (filter (\<lambda>c. c \<noteq> Gone \<and> \<not> is_overlay c) cs)"
    using keep by (simp add: filter_map comp_def)
  moreover have "map live (map ?g (filter (\<lambda>c. c \<noteq> Gone \<and> \<not> is_overlay c) cs)) =
      map without_overlays (filter (\<lambda>c. c \<noteq> Gone \<and> \<not> is_overlay c) cs)"
    using g by simp
  moreover from forEach_children [of "by_class OVERLAY" a anc "[]" cs remove]
  have "forEach (all_below (by_class OVERLAY) (a # anc) 0 cs) remove anc (Element a cs) =
      Element a (map ?g cs)" by simp
  ultimately show ?thesis by simp
qed

text \<open>\<open>markRelevant\<close>, seen in the document: the class is taken off and every overlay
  below the element is gone.\<close>

lemma live_markRelevant:
  "live (markRelevant (Element a cs)) = without_overlays (Element (classList_remove BLURRED a) cs)"
proof -
  from markRelevant_Element [of a cs]
  have "markRelevant (Element a cs) =
      forEach (all_below (by_class OVERLAY) [classList_remove BLURRED a] 0 cs) remove []
        (Element (classList_remove BLURRED a) cs)"
    by auto
  then show ?thesis by (simp only: live_remove_below)
qed

lemma without_overlays_update:
  assumes "without_overlays x = without_overlays y" and "is_overlay x = is_overlay y"
    and "x = Gone \<longleftrightarrow> y = Gone"
  shows "map without_overlays (filter (\<lambda>c. c \<noteq> Gone \<and> \<not> is_overlay c) (cs[i := x])) =
         map without_overlays (filter (\<lambda>c. c \<noteq> Gone \<and> \<not> is_overlay c) (cs[i := y]))"
proof (induction cs arbitrary: i)
  case Nil
  show ?case by simp
next
  case (Cons c cs)
  show ?case
  proof (cases i)
    case 0
    with assms show ?thesis by simp
  next
    case (Suc j)
    with Cons.IH [of j] show ?thesis by simp
  qed
qed

lemma without_overlays_apply_at:
  assumes "\<And>anc anc' n. without_overlays (f anc n) = without_overlays (g anc' n) \<and>
             is_overlay (f anc n) = is_overlay (g anc' n) \<and> (f anc n = Gone \<longleftrightarrow> g anc' n = Gone)"
  shows "without_overlays (apply_at p f anc d) = without_overlays (apply_at p g anc' d) \<and>
         is_overlay (apply_at p f anc d) = is_overlay (apply_at p g anc' d) \<and>
         (apply_at p f anc d = Gone \<longleftrightarrow> apply_at p g anc' d = Gone)"
proof (induction p arbitrary: anc anc' d)
  case Nil
  show ?case using assms by simp
next
  case (Cons i q)
  show ?case
  proof (cases d)
    case (Element a cs)
    from Cons.IH [of "a # anc" "cs ! i" "a # anc'"]
    have "map without_overlays (filter (\<lambda>c. c \<noteq> Gone \<and> \<not> is_overlay c)
            (cs[i := apply_at q f (a # anc) (cs ! i)])) =
          map without_overlays (filter (\<lambda>c. c \<noteq> Gone \<and> \<not> is_overlay c)
            (cs[i := apply_at q g (a # anc') (cs ! i)]))"
      by (intro without_overlays_update) simp_all
    with Element show ?thesis by simp
  qed simp_all
qed

lemma is_overlay_overlay: "is_overlay overlay"
  using all_in_overlay [of "[]"] by (auto simp: overlay_def by_class_def split: if_splits)

lemma without_overlays_attach:
  "without_overlays (attach_overlay anc n) = without_overlays (set_relative anc' n) \<and>
   is_overlay (attach_overlay anc n) = is_overlay (set_relative anc' n) \<and>
   (attach_overlay anc n = Gone \<longleftrightarrow> set_relative anc' n = Gone)"
  by (cases n) (simp_all add: is_overlay_overlay)

text \<open>Where no overlay is below an element, nothing is taken out.\<close>

lemma without_overlays_none:
  "all_in (by_class OVERLAY) anc d = [] \<Longrightarrow> without_overlays d = live d \<and> \<not> is_overlay d"
proof (induction d arbitrary: anc)
  case (Element a cs)
  from Element.prems have root: "\<not> classList_contains OVERLAY a"
    and kids: "\<forall>c \<in> set cs. all_in (by_class OVERLAY) (a # anc) c = []"
    by (auto simp: all_below_empty_iff by_class_def split: if_splits)
  have "without_overlays c = live c \<and> \<not> is_overlay c" if "c \<in> set cs" for c
    using that kids by (intro Element.IH) auto
  then have "filter (\<lambda>c. c \<noteq> Gone \<and> \<not> is_overlay c) cs = filter (\<lambda>c. c \<noteq> Gone) cs"
    "map without_overlays (filter (\<lambda>c. c \<noteq> Gone) cs) = map live (filter (\<lambda>c. c \<noteq> Gone) cs)"
    by (auto cong: filter_cong)
  with root show ?case by simp
qed simp_all

lemma all_below_update_same:
  assumes "i < length cs" and "all_in sel anc x = all_in sel anc (cs ! i)"
  shows "all_below sel anc k (cs[i := x]) = all_below sel anc k cs"
proof -
  have "cs[i := x] = take i cs @ x # drop (Suc i) cs"
    using assms(1) by (rule upd_conv_take_nth_drop)
  moreover have "cs = take i cs @ cs ! i # drop (Suc i) cs"
    using assms(1) by (rule id_take_nth_drop)
  moreover have "all_below sel anc k (take i cs @ x # drop (Suc i) cs) =
      all_below sel anc k (take i cs @ cs ! i # drop (Suc i) cs)"
    using assms(2) by (simp add: all_below_append)
  ultimately show ?thesis by simp
qed

lemma all_in_set_relative:
  "all_in (by_class c) anc (apply_at p set_relative anc' d) = all_in (by_class c) anc d"
proof (induction p arbitrary: anc anc' d)
  case Nil
  show ?case
  proof (cases d)
    case (Element a cs)
    have "all_below (by_class c) (a\<lparr>style_position := ''relative''\<rparr> # anc) 0 cs =
        all_below (by_class c) (a # anc) 0 cs"
      by (rule all_below_plain [OF plain_by_class])
    then show ?thesis unfolding Element
      by (simp add: by_class_def classList_contains_def classList_def)
  qed simp_all
next
  case (Cons i q)
  show ?case
  proof (cases d)
    case (Element a cs)
    show ?thesis
    proof (cases "i < length cs")
      case True
      have "all_in (by_class c) (a # anc) (apply_at q set_relative (a # anc') (cs ! i)) =
          all_in (by_class c) (a # anc) (cs ! i)"
        by (rule Cons.IH)
      from all_below_update_same [OF True this] True show ?thesis unfolding Element by simp
    next
      case False
      then show ?thesis unfolding Element by simp
    qed
  qed simp_all
qed

lemma badges_set_relative: "badges (apply_at p set_relative anc d) = badges d"
proof (cases d)
  case (Element a cs)
  show ?thesis
  proof (cases p)
    case Nil
    have "all_below (by_class OVERLAY) [a\<lparr>style_position := ''relative''\<rparr>] 0 cs =
        all_below (by_class OVERLAY) [a] 0 cs"
      by (rule all_below_plain [OF plain_by_class])
    then show ?thesis unfolding Element Nil by (simp add: badges_def)
  next
    case (Cons i q)
    show ?thesis
    proof (cases "i < length cs")
      case True
      have "all_in (by_class OVERLAY) [a] (apply_at q set_relative (a # anc) (cs ! i)) =
          all_in (by_class OVERLAY) [a] (cs ! i)"
        by (rule all_in_set_relative)
      from all_below_update_same [OF True this] True show ?thesis
        unfolding Element Cons by (simp add: badges_def)
    next
      case False
      then show ?thesis unfolding Element Cons by simp
    qed
  qed
next
  case (Text s)
  then show ?thesis by (cases p) simp_all
next
  case Gone
  then show ?thesis by (cases p) simp_all
qed

lemma without_overlays_below: "badges x = 0 \<Longrightarrow> without_overlays x = live x"
proof (cases x)
  case (Element a cs)
  assume "badges x = 0"
  then have kids: "\<forall>c \<in> set cs. all_in (by_class OVERLAY) [a] c = []"
    unfolding Element by (simp add: badges_def all_below_empty_iff)
  have "without_overlays c = live c \<and> \<not> is_overlay c" if "c \<in> set cs" for c
    using that kids by (intro without_overlays_none [of "[a]"]) auto
  then have "filter (\<lambda>c. c \<noteq> Gone \<and> \<not> is_overlay c) cs = filter (\<lambda>c. c \<noteq> Gone) cs"
    "map without_overlays (filter (\<lambda>c. c \<noteq> Gone) cs) = map live (filter (\<lambda>c. c \<noteq> Gone) cs)"
    by (auto cong: filter_cong)
  then show ?thesis unfolding Element by simp
qed simp_all

lemma overlay_host_rewritten: "overlay_host (rewritten x) = overlay_host x"
proof (cases x)
  case (Element a cs)
  have "first_below THUMBNAIL [a\<lparr>class_attr := Some (serialize (classList a))\<rparr>] 0 cs =
      first_below THUMBNAIL [a] 0 cs"
    by (rule first_below_plain [OF plain_THUMBNAIL])
  then show ?thesis unfolding Element by (simp add: overlay_host_def)
qed simp_all

lemma badges_rewritten: "badges (rewritten x) = badges x"
proof (cases x)
  case (Element a cs)
  have "all_below (by_class OVERLAY) [a\<lparr>class_attr := Some (serialize (classList a))\<rparr>] 0 cs =
      all_below (by_class OVERLAY) [a] 0 cs"
    by (rule all_below_plain [OF plain_by_class])
  then show ?thesis unfolding Element by (simp add: badges_def)
qed simp_all

lemma round_trip:
  assumes "is_element x" and "\<not> is_marked x"
  shows "live (markRelevant (markIrrelevant x)) =
         without_overlays (apply_at (overlay_host x) set_relative [] (rewritten x))"
proof -
  from assms obtain a cs where x: "x = Element a cs" and nb: "\<not> classList_contains BLURRED a"
    by (cases x) auto
  let ?h = "overlay_host (Element a cs)"
  from markIrrelevant_shape [OF nb, of cs] obtain a1 cs1 where
    z: "\<forall>cl. apply_at ?h attach_overlay [] (Element (a\<lparr>class_attr := cl\<rparr>) cs) =
            Element (a1\<lparr>class_attr := cl\<rparr>) cs1"
    and y: "markIrrelevant (Element a cs) =
      Element (a1\<lparr>class_attr := Some (serialize (classList a @ [BLURRED]))\<rparr>) cs1"
    by blast
  have "live (markRelevant (markIrrelevant (Element a cs))) =
      without_overlays (Element (a1\<lparr>class_attr := Some (serialize (classList a))\<rparr>) cs1)"
    unfolding y live_markRelevant by (simp only: classList_remove_added [OF token_BLURRED nb])
  also have "\<dots> = without_overlays (apply_at ?h attach_overlay [] (rewritten (Element a cs)))"
    using z by simp
  also have "\<dots> = without_overlays (apply_at ?h set_relative [] (rewritten (Element a cs)))"
    using without_overlays_apply_at [of attach_overlay set_relative, OF without_overlays_attach]
    by blast
  finally show ?thesis unfolding x .
qed

text \<open>
  Claim C6, as amended. On an item that is not marked, \<open>markIrrelevant\<close> followed by
  \<open>markRelevant\<close> gives, in the document, the item with three changes and no other: the
  element the overlay was attached to (the parent of the first thumbnail container, or
  the item itself) has the inline position \<open>relative\<close>; the \<open>class\<close> attribute of the
  item holds its tokens joined by single spaces; every overlay that was below the item
  is removed. Where no overlay was below the item, the first two are all the changes;
  where moreover that element had the inline position \<open>relative\<close> and the \<open>class\<close>
  attribute was in that form, the item is as it was.
\<close>

theorem round_trip_residue:
  assumes "is_element x" and "\<not> is_marked x"
  shows "live (markRelevant (markIrrelevant x)) =
           without_overlays (apply_at (overlay_host x) set_relative [] (rewritten x)) \<and>
         (badges x = 0 \<longrightarrow>
            live (markRelevant (markIrrelevant x)) =
              live (apply_at (overlay_host x) set_relative [] (rewritten x))) \<and>
         (badges x = 0 \<and> position_at (overlay_host x) x = ''relative'' \<and> rewritten x = x \<longrightarrow>
            live (markRelevant (markIrrelevant x)) = live x)"
proof -
  let ?y = "apply_at (overlay_host x) set_relative [] (rewritten x)"
  have 1: "live (markRelevant (markIrrelevant x)) = without_overlays ?y"
    using assms by (rule round_trip)
  have 2: "without_overlays ?y = live ?y" if "badges x = 0"
    using that by (intro without_overlays_below) (simp add: badges_set_relative badges_rewritten)
  have 3: "apply_at (overlay_host x) set_relative [] x = x"
    if "position_at (overlay_host x) x = ''relative''"
  proof (rule apply_at_id)
    fix n assume "node_at (overlay_host x) x = Some n"
    with that show "set_relative (ancestors_at (overlay_host x) [] x) n = n"
      by (cases n) simp_all
  qed
  have 4: "live (markRelevant (markIrrelevant x)) = live x"
    if "badges x = 0" "position_at (overlay_host x) x = ''relative''" "rewritten x = x"
  proof -
    from that(3) 3 [OF that(2)] have "?y = x" by simp
    with 1 2 [OF that(1)] show ?thesis by simp
  qed
  have 5: "live (markRelevant (markIrrelevant x)) = live ?y" if "badges x = 0"
    using 1 2 [OF that] by simp
  from 1 5 4 show ?thesis by blast
qed

theorem round_trip_residue_witness:
  "is_element spaced_video \<and> \<not> is_marked spaced_video \<and> badges spaced_video = 0 \<and>
   overlay_host spaced_video = [0] \<and>
   class_at [] (rewritten spaced_video) = Some ''style-scope ytd-item-section-renderer'' \<and>
   live (markRelevant (markIrrelevant spaced_video)) =
     live (apply_at [0] set_relative [] (rewritten spaced_video)) \<and>
   is_element settled_video \<and> \<not> is_marked settled_video \<and> badges settled_video = 0 \<and>
   position_at (overlay_host settled_video) settled_video = ''relative'' \<and>
   rewritten settled_video = settled_video \<and>
   live (markRelevant (markIrrelevant settled_video)) = live settled_video \<and>
   is_element holder \<and> \<not> is_marked holder \<and> badges holder = 1 \<and> overlay_host holder = [] \<and>
   live (markRelevant (markIrrelevant holder)) =
     without_overlays (apply_at [] set_relative [] (rewritten holder))"
proof -
  have s: "is_element spaced_video" "\<not> is_marked spaced_video" "badges spaced_video = 0"
    "overlay_host spaced_video = [0]"
    "class_at [] (rewritten spaced_video) = Some ''style-scope ytd-item-section-renderer''"
    by code_simp+
  have v: "is_element settled_video" "\<not> is_marked settled_video" "badges settled_video = 0"
    "position_at (overlay_host settled_video) settled_video = ''relative''"
    "rewritten settled_video = settled_video" by code_simp+
  have h: "is_element holder" "\<not> is_marked holder" "badges holder = 1" "overlay_host holder = []"
    by code_simp+
  from round_trip_residue [OF s(1,2)] s(3) have
    "live (markRelevant (markIrrelevant spaced_video)) =
       live (apply_at (overlay_host spaced_video) set_relative [] (rewritten spaced_video))"
    by blast
  then have 1: "live (markRelevant (markIrrelevant spaced_video)) =
      live (apply_at [0] set_relative [] (rewritten spaced_video))"
    by (simp only: s(4))
  from round_trip_residue [OF v(1,2)] v(3,4,5) have
    2: "live (markRelevant (markIrrelevant settled_video)) = live settled_video" by blast
  from round_trip_residue [OF h(1,2)] have
    "live (markRelevant (markIrrelevant holder)) =
       without_overlays (apply_at (overlay_host holder) set_relative [] (rewritten holder))"
    by blast
  then have 3: "live (markRelevant (markIrrelevant holder)) =
      without_overlays (apply_at [] set_relative [] (rewritten holder))"
    by (simp only: h(4))
  from s v h 1 2 3 show ?thesis by (simp only:) simp
qed

text \<open>
  Claim C6 as stated fails. After marking and clearing the sample video element, the
  parent of the thumbnail has the inline position \<open>relative\<close>, which it did not have
  before, and the item has an empty \<open>class\<close> attribute where it had none; the \<open>class\<close>
  attribute of the second sample has lost the spaces it had to spare. On the grid
  item that is not marked and holds a marked video element, the badge of that video
  element is gone as well, and its mark is still there.
\<close>

theorem round_trip_counterexample:
  "unmarked sample_video \<and>
   position_at [0] sample_video = [] \<and>
   position_at [0] (markRelevant (markIrrelevant sample_video)) = ''relative'' \<and>
   class_at [] sample_video = None \<and>
   class_at [] (markRelevant (markIrrelevant sample_video)) = Some [] \<and>
   live (markRelevant (markIrrelevant sample_video)) \<noteq> live sample_video \<and>
   class_at [] spaced_video = Some ''style-scope  ytd-item-section-renderer '' \<and>
   class_at [] (markRelevant (markIrrelevant spaced_video)) =
     Some ''style-scope ytd-item-section-renderer'' \<and>
   is_element holder \<and> \<not> is_marked holder \<and>
   map_option is_marked (node_at [0] holder) = Some True \<and>
   map_option badges (node_at [0] holder) = Some 1 \<and>
   map_option is_marked (node_at [0] (markRelevant (markIrrelevant holder))) = Some True \<and>
   map_option badges (node_at [0] (markRelevant (markIrrelevant holder))) = Some 0"
  by code_simp

section \<open>The scan\<close>

text \<open>
  Claim C3, as amended. Whatever is marked before: when \<open>enabled\<close> is false or the goal text
  is empty, the scan is the loop that calls \<open>markRelevant\<close> on every marked element and
  nothing else (no title is extracted, no relevance is checked). No marked element is left,
  and what is left of an element that was marked carries no badge.
\<close>

theorem scan_full_clear:
  assumes "\<not> enabled \<or> goal = []"
  shows "scanVideos goal enabled doc =
           forEach (marked_elements doc) (\<lambda>anc item. markRelevant item) [] doc \<and>
         marked_elements (scanVideos goal enabled doc) = [] \<and>
         (\<forall>p \<in> set (marked_elements doc). \<forall>n.
            node_at p (scanVideos goal enabled doc) = Some n \<longrightarrow> \<not> is_marked n \<and> badges n = 0)"
proof -
  from assms have "scanVideos goal enabled doc = clearAllFilters doc"
    by (auto simp: scanVideos_def)
  then show ?thesis
    using clearAllFilters_none [of doc] clearAllFilters_complete [of _ doc]
    by (simp add: clearAllFilters_def marked_elements_def)
qed

theorem scan_full_clear_witness:
  "marked_elements cx_doc = [[0]] \<and>
   node_at [0] cx_doc = Some cx_video \<and> badges cx_video = 1 \<and>
   marked_elements (scanVideos ''rust'' False cx_doc) = [] \<and>
   (\<exists>n. node_at [0] (scanVideos ''rust'' False cx_doc) = Some n \<and> \<not> is_marked n \<and> badges n = 0)"
proof -
  have m: "marked_elements cx_doc = [[0]]" by code_simp
  have b: "node_at [0] cx_doc = Some cx_video" "badges cx_video = 1" by code_simp+
  have "node_at [0] (scanVideos ''rust'' False cx_doc) \<noteq> None" by code_simp
  then obtain n where n: "node_at [0] (scanVideos ''rust'' False cx_doc) = Some n" by blast
  have t: "scanVideos ''rust'' False cx_doc =
      forEach (marked_elements cx_doc) (\<lambda>anc item. markRelevant item) [] cx_doc \<and>
    marked_elements (scanVideos ''rust'' False cx_doc) = [] \<and>
    (\<forall>p \<in> set (marked_elements cx_doc). \<forall>n.
       node_at p (scanVideos ''rust'' False cx_doc) = Some n \<longrightarrow> \<not> is_marked n \<and> badges n = 0)"
    by (rule scan_full_clear) simp
  from t m n have "\<not> is_marked n \<and> badges n = 0" by simp
  with t m b n show ?thesis by blast
qed

text \<open>
  Claim C3 as stated fails for a goal text that is not empty and has no keyword: the scan
  then classifies, and a marked element without a title stays marked.
\<close>

theorem scan_keywordless_goal_counterexample:
  "extractKeywords (Val ''the'') = [] \<and>
   marked_elements cx_doc = [[0]] \<and>
   marked_elements (scanVideos ''the'' True cx_doc) = [[0]]"
  by code_simp



section \<open>Messages of the store\<close>




text \<open>
  Claim C9. When the \<open>GET_STATE\<close> request fails or is answered with nothing, the
  callback changes nothing: the goal stays empty and the flag true, no scan runs and no
  second request is sent. A later message still sets the goal or the flag.
\<close>

theorem state_request_failure:
  assumes "r = LastError \<or> r = Answer Missing \<or> r = Answer Null"
    and "w = startup doc href h"
  shows "onState now r w = w \<and>
         currentGoal w = [] \<and> isEnabled w = True \<and> scans w = [] \<and> requests w = [GET_STATE] \<and>
         currentGoal (onMessage later (GOAL_UPDATED (Val g)) (onState now r w)) = g \<and>
         isEnabled (onMessage later (TOGGLE_CHANGED (Val b)) (onState now r w)) = b"
  using assms
  by (auto simp: onState_def startup_def onMessage_def scan_now_def clear_now_def or_empty_def
      truthy_def Let_def)

theorem state_request_failure_witness:
  "onState 5 LastError (startup cx_doc ''u'' 1) = startup cx_doc ''u'' 1 \<and>
   currentGoal (startup cx_doc ''u'' 1) = [] \<and>
   isEnabled (startup cx_doc ''u'' 1) \<and>
   requests (startup cx_doc ''u'' 1) = [GET_STATE] \<and>
   currentGoal (onMessage 9 (GOAL_UPDATED (Val ''rust'')) (onState 5 LastError (startup cx_doc ''u'' 1))) = ''rust'' \<and>
   \<not> isEnabled (onMessage 9 (TOGGLE_CHANGED (Val False)) (onState 5 LastError (startup cx_doc ''u'' 1)))"
proof -
  have "LastError = LastError \<or> LastError = Answer Missing \<or> LastError = Answer Null" by simp
  from state_request_failure [where doc = cx_doc and href = "''u''" and h = 1 and now = 5
      and later = 9 and g = "''rust''" and b = False, OF this refl]
  show ?thesis by blast
qed

section \<open>Debounced scans\<close>

lemma debouncedScan_idle:
  assumes "timeouts w = []" and "next_handle w \<noteq> 0"
  shows "armed (next_handle w) (now + 300) (debouncedScan now w) \<and>
         scans (debouncedScan now w) = scans w"
  using assms
  by (auto simp: debouncedScan_def armed_def setTimeout_def clearTimeout_def Let_def
      split: option.splits)

lemma debouncedScan_armed:
  assumes "armed h due w"
  shows "armed (next_handle w) (now + 300) (debouncedScan now w) \<and>
         scans (debouncedScan now w) = scans w"
  using assms
  by (auto simp: debouncedScan_def armed_def setTimeout_def clearTimeout_def Let_def)

lemma advance_idle: "timeouts w = [] \<Longrightarrow> advance t w = w"
  by (simp add: advance_def)

lemma advance_early: "armed h due w \<Longrightarrow> t < due \<Longrightarrow> advance t w = w"
  by (simp add: advance_def armed_def)

lemma advance_fire:
  "armed h due w \<Longrightarrow> due \<le> t \<Longrightarrow>
   scans (advance t w) = scans w @ [due] \<and> timeouts (advance t w) = []"
  by (simp add: advance_def armed_def scan_now_def)

lemma run_chain:
  "armed h due w \<Longrightarrow> chain due es \<Longrightarrow>
   \<exists>h'. armed h' (if es = [] then due else fst (last es) + 300) (run (as_events es) w) \<and>
        scans (run (as_events es) w) = scans w"
proof (induction es arbitrary: h due w)
  case Nil
  then show ?case by (auto simp: as_events_def)
next
  case (Cons e es)
  obtain t ms where e: "e = (t, ms)" by (cases e)
  from Cons.prems e have t: "t < due" and q: "list_ex (\<lambda>m. m > 0) ms" and c: "chain (t + 300) es"
    by simp_all
  let ?w1 = "debouncedScan t w"
  have step: "handle_event t (Mutations ms) (advance t w) = ?w1"
    using advance_early [OF Cons.prems(1) t] q by (simp add: handle_event_def onMutations_def)
  from debouncedScan_armed [OF Cons.prems(1), of t]
  have a1: "armed (next_handle w) (t + 300) ?w1" and s1: "scans ?w1 = scans w" by simp_all
  from Cons.IH [OF a1 c] obtain h' where
    "armed h' (if es = [] then t + 300 else fst (last es) + 300) (run (as_events es) ?w1)"
    "scans (run (as_events es) ?w1) = scans ?w1" by blast
  moreover have "run (as_events (e # es)) w = run (as_events es) ?w1"
    using step by (simp add: as_events_def e)
  ultimately show ?case using s1 e by auto
qed

lemma chain_window:
  "\<forall>e \<in> set es. lo \<le> fst e \<and> fst e < lo + 300 \<and> list_ex (\<lambda>m. m > 0) (snd e) \<Longrightarrow>
   lo + 300 \<le> due \<Longrightarrow> chain due es"
proof (induction es arbitrary: due)
  case Nil
  show ?case by simp
next
  case (Cons e es)
  obtain t ms where e: "e = (t, ms)" by (cases e)
  from Cons.prems e have "lo \<le> t" "t < lo + 300" "list_ex (\<lambda>m. m > 0) ms" by auto
  moreover from this Cons.prems have "chain (t + 300) es" by (intro Cons.IH) auto
  ultimately show ?case using Cons.prems(2) e by simp
qed

text \<open>
  Claim C8. With no timeout pending, a burst of observer callbacks that each report an added
  node, all within less than 300 ms, runs no scan while it lasts and leaves a single
  pending timeout; exactly one scan runs, 300 ms after the last callback.
\<close>

theorem debounce_coalesces:
  assumes idle: "timeouts w = []" "next_handle w \<noteq> 0"
    and burst: "burst \<noteq> []" "sorted (map fst burst)" "fst (last burst) < fst (hd burst) + 300"
    and added: "\<forall>(t, mutations) \<in> set burst. list_ex (\<lambda>addedNodes. addedNodes > 0) mutations"
    and w': "w' = run (as_events burst) w"
  shows "scans w' = scans w \<and>
         (\<exists>h. timeouts w' = [(h, fst (last burst) + 300)]) \<and>
         (if t < fst (last burst) + 300 then scans (advance t w') = scans w
          else scans (advance t w') = scans w @ [fst (last burst) + 300] \<and>
               timeouts (advance t w') = [])"
proof -
  obtain t1 ms1 es where b: "burst = (t1, ms1) # es"
    using burst(1) by (cases burst) auto
  have q1: "list_ex (\<lambda>m. m > 0) ms1" using added b by auto
  let ?w1 = "debouncedScan t1 w"
  have step: "handle_event t1 (Mutations ms1) (advance t1 w) = ?w1"
    using advance_idle [OF idle(1)] q1 by (simp add: handle_event_def onMutations_def)
  from debouncedScan_idle [OF idle, of t1]
  have a1: "armed (next_handle w) (t1 + 300) ?w1" and s1: "scans ?w1 = scans w" by simp_all
  have last_le: "fst e \<le> fst (last burst)" if "e \<in> set burst" for e
  proof -
    from that obtain i where i: "i < length burst" "burst ! i = e" by (auto simp: in_set_conv_nth)
    have "map fst burst ! i \<le> map fst burst ! (length burst - 1)"
      using burst(2) i(1) by (intro sorted_nth_mono) auto
    with i burst(1) show ?thesis by (simp add: last_conv_nth)
  qed
  have first_le: "t1 \<le> fst e" if "e \<in> set es" for e
    using burst(2) that b by auto
  have "chain (t1 + 300) es"
  proof (rule chain_window [of es t1])
    show "\<forall>e \<in> set es. t1 \<le> fst e \<and> fst e < t1 + 300 \<and> list_ex (\<lambda>m. m > 0) (snd e)"
    proof
      fix e assume e: "e \<in> set es"
      then have "fst e \<le> fst (last burst)" using last_le b by simp
      with burst(3) b have "fst e < t1 + 300" by simp
      moreover have "list_ex (\<lambda>m. m > 0) (snd e)" using added e b by auto
      ultimately show "t1 \<le> fst e \<and> fst e < t1 + 300 \<and> list_ex (\<lambda>m. m > 0) (snd e)"
        using first_le [OF e] by simp
    qed
  qed simp
  from run_chain [OF a1 this] obtain h' where
    a: "armed h' (if es = [] then t1 + 300 else fst (last es) + 300) (run (as_events es) ?w1)"
    and s: "scans (run (as_events es) ?w1) = scans ?w1" by blast
  have w'_eq: "w' = run (as_events es) ?w1"
    unfolding w' b using step by (simp add: as_events_def)
  have due: "(if es = [] then t1 + 300 else fst (last es) + 300) = fst (last burst) + 300"
    by (simp add: b)
  from a have arm: "armed h' (fst (last burst) + 300) w'" unfolding due w'_eq .
  have sc: "scans w' = scans w" using s s1 w'_eq by simp
  show ?thesis
  proof (cases "t < fst (last burst) + 300")
    case True
    with advance_early [OF arm True] arm sc show ?thesis by (auto simp: armed_def)
  next
    case False
    then have "fst (last burst) + 300 \<le> t" by simp
    from advance_fire [OF arm this] False arm sc show ?thesis by (auto simp: armed_def)
  qed
qed

theorem debounce_coalesces_witness:
  "scans (run (as_events sample_burst) (startup cx_doc ''u'' 1)) = [] \<and>
   scans (advance 1598 (run (as_events sample_burst) (startup cx_doc ''u'' 1))) = [] \<and>
   scans (advance 1599 (run (as_events sample_burst) (startup cx_doc ''u'' 1))) = [1599] \<and>
   timeouts (advance 1599 (run (as_events sample_burst) (startup cx_doc ''u'' 1))) = []"
proof -
  let ?w = "startup cx_doc ''u'' 1"
  have i: "timeouts ?w = []" "next_handle ?w \<noteq> 0" "scans ?w = []" by (simp_all add: startup_def)
  have b: "sample_burst \<noteq> []" "sorted (map fst sample_burst)"
    "fst (last sample_burst) < fst (hd sample_burst) + 300"
    "\<forall>(t, mutations) \<in> set sample_burst. list_ex (\<lambda>addedNodes. addedNodes > 0) mutations"
    by (simp_all add: sample_burst_def)
  have l: "fst (last sample_burst) + 300 = 1599" by (simp add: sample_burst_def)
  note th = debounce_coalesces [OF i(1,2) b refl]
  from th [of 1598] th [of 1599] show ?thesis unfolding l i(3) by simp
qed

end
